theory Spec2Isabelle
  imports Main "HOL-Library.Word"
begin

unbundle bit_operations_syntax

section \<open>Error reporting of the netplan YAML parser (src/error.c)\<close>

text \<open>
  A shallow embedding of \<^verbatim>\<open>src/error.c\<close>: the caret renderer
  \<^verbatim>\<open>write_error_marker\<close>, the two context locators
  \<^verbatim>\<open>get_parser_error_context\<close> (scan buffer) and
  \<^verbatim>\<open>get_syntax_error_context\<close> (file), the two entry points
  \<^verbatim>\<open>parser_error\<close> and \<^verbatim>\<open>yaml_error\<close>, and the accessors of the
  error handle. C strings are \<open>string\<close> (a list of bytes); the pointers into libyaml's
  scan buffer are offsets into the memory object that holds it; \<^verbatim>\<open>size_t\<close> is a
  64-bit word and \<^verbatim>\<open>int\<close> a 32-bit two's complement value (LP64).
\<close>

subsection \<open>Bytes\<close>

abbreviation NUL :: char where "NUL \<equiv> CHR 0x00"
abbreviation TAB :: char where "TAB \<equiv> CHR 0x09"
abbreviation NL :: char where "NL \<equiv> CHR 0x0A"
abbreviation SPC :: char where "SPC \<equiv> CHR 0x20"

subsection \<open>The error handle\<close>

text \<open>
  \<^verbatim>\<open>NetplanError\<close> is GLib's \<^verbatim>\<open>GError\<close>: a domain, a code and an owned message.
  In GLib the domain is a \<^verbatim>\<open>GQuark\<close> (an unsigned 32-bit integer), the code a
  \<^verbatim>\<open>gint\<close> (a signed 32-bit integer, kept here as its bit pattern and read with
  \<open>sint\<close>). The record is polymorphic in both, so that the formatters below can name
  the enumerators they pass to \<^verbatim>\<open>g_set_error\<close> (their numeric values are declared in
  a header that is not part of error.c), while the accessors work on the numbers.
\<close>

record ('d, 'c) GError =
  domain :: 'd
  code :: 'c
  message :: string

type_synonym NetplanError = "(32 word, 32 word) GError"

text \<open>
  \<^verbatim>\<open>uint64_t error_code = (uint64_t)error->domain << 32 | (uint64_t)error->code;\<close>
  The conversion of the unsigned domain to 64 bits extends it with zeros (\<open>ucast\<close>); the
  conversion of the signed code extends its sign (\<open>scast\<close>).
\<close>

definition netplan_error_code :: "NetplanError \<Rightarrow> 64 word" where
  "netplan_error_code error =
     (let error_code = push_bit 32 (ucast (domain error) :: 64 word) OR (scast (code error) :: 64 word)
      in error_code)"

text \<open>
  Modelled from the spec: \<^verbatim>\<open>netplan_copy_string\<close>, which error.c calls and which is
  defined in another file of the repository that is not among the sources. The spec's
  \<^verbatim>\<open>copy_message\<close> "copies up to destination_capacity bytes of the owned message into
  a caller-supplied buffer, truncating safely, returning the number of bytes written".
  The result is the destination buffer after the call and the returned count.
\<close>

definition netplan_copy_string :: "string \<Rightarrow> char list \<Rightarrow> nat \<Rightarrow> char list \<times> int" where
  "netplan_copy_string input out_buffer out_size =
     (let n = min (length input) out_size
      in (take n input @ drop n out_buffer, int n))"

text \<open>\<^verbatim>\<open>return netplan_copy_string(error->message, buf, buf_size);\<close>\<close>

definition netplan_error_message :: "NetplanError \<Rightarrow> char list \<Rightarrow> nat \<Rightarrow> char list \<times> int" where
  "netplan_error_message error buf buf_size = netplan_copy_string (message error) buf buf_size"

subsection \<open>Faults\<close>

text \<open>
  What C leaves undefined is a value of the model: a load or store outside the memory
  object that holds the scan buffer, the overflow of a signed \<^verbatim>\<open>int\<close>, and a null
  file path where the caller has promised one. A function that can fault returns
  \<open>fault + result\<close>.
\<close>

datatype fault = Invalid_Access nat | Signed_Overflow | Null_Pointer

subsection \<open>Integers and their text\<close>

text \<open>
  A position mark of libyaml holds \<^verbatim>\<open>size_t\<close> values. Passing one for an
  \<^verbatim>\<open>int\<close> parameter keeps its low 32 bits, read as two's complement.
\<close>

definition size_t_to_int :: "64 word \<Rightarrow> int" where
  "size_t_to_int n = sint (ucast n :: 32 word)"

definition INT_MAX :: int where
  "INT_MAX = 2147483647"

text \<open>The conversion \<^verbatim>\<open>%zu\<close>: the decimal digits of an unsigned value.\<close>

fun decimal :: "nat \<Rightarrow> string" where
  "decimal n =
     (if n < 10 then [''0123456789'' ! n]
      else decimal (n div 10) @ [''0123456789'' ! (n mod 10)])"

definition fmt_zu :: "64 word \<Rightarrow> string" where
  "fmt_zu n = decimal (unat n)"

text \<open>
  The conversion \<^verbatim>\<open>%s\<close> of a string held in a variable that may be null, as
  \<^verbatim>\<open>line\<close> is in \<^verbatim>\<open>get_syntax_error_context\<close>: the bytes up to the first NUL.
  For a null pointer the C library that GLib prints with writes \<^verbatim>\<open>(null)\<close>.
\<close>

definition fmt_s :: "string option \<Rightarrow> string" where
  "fmt_s p = (case p of None \<Rightarrow> ''(null)'' | Some bytes \<Rightarrow> takeWhile (\<lambda>c. c \<noteq> NUL) bytes)"

subsection \<open>Raising an error\<close>

text \<open>
  The enumerators error.c passes to \<^verbatim>\<open>g_set_error\<close>, by name, and the domain and
  code of an error that GLib itself reports for a file that cannot be read.
\<close>

datatype error_domain = NETPLAN_PARSER_ERROR | NETPLAN_VALIDATION_ERROR | G_IO_ERROR

datatype error_code =
    NETPLAN_ERROR_INVALID_YAML
  | NETPLAN_ERROR_INVALID_CONFIG
  | NETPLAN_ERROR_CONFIG_VALIDATION
  | NETPLAN_ERROR_CONFIG_GENERIC
  | G_IO_ERROR_ENUM int

type_synonym raised_error = "(error_domain, error_code) GError"

text \<open>
  The out-parameter \<^verbatim>\<open>GError **error\<close>: the caller passes no location
  (\<^verbatim>\<open>error == NULL\<close>), or a location that is empty or already holds an error.
  \<^verbatim>\<open>g_set_error\<close> fills an empty location and leaves every other one as it is.
\<close>

datatype error_out = No_Location | Location "raised_error option"

definition g_set_error :: "error_out \<Rightarrow> error_domain \<Rightarrow> error_code \<Rightarrow> string \<Rightarrow> error_out" where
  "g_set_error error d c str =
     (case error of
        No_Location \<Rightarrow> No_Location
      | Location None \<Rightarrow> Location (Some \<lparr>domain = d, code = c, message = str\<rparr>)
      | Location (Some e) \<Rightarrow> Location (Some e))"

subsection \<open>The caret renderer\<close>

text \<open>
  \<^verbatim>\<open>for (i = 0; (column > 0 && i < column); i++) g_string_append_printf(message, " ");\<close>
  \<^verbatim>\<open>g_string_append_printf(message, "^");\<close>
  The string built in \<^verbatim>\<open>message\<close> is passed in and returned.
\<close>

function marker_loop :: "int \<Rightarrow> int \<Rightarrow> string \<Rightarrow> string" where
  "marker_loop i column msg =
     (if column > 0 \<and> i < column then marker_loop (i + 1) column (msg @ '' '')
      else msg)"
  by pat_completeness auto
termination
  by (relation "measure (\<lambda>(i, column, msg). nat (column - i))") auto

definition write_error_marker :: "string \<Rightarrow> int \<Rightarrow> string" where
  "write_error_marker msg column = marker_loop 0 column msg @ ''^''"

subsection \<open>The scan buffer and the buffer line locator\<close>

text \<open>
  The fields of libyaml's \<^verbatim>\<open>yaml_parser_t\<close> that error.c reads. The three buffer
  pointers \<^verbatim>\<open>buffer.start\<close>, \<^verbatim>\<open>buffer.pointer\<close> and \<^verbatim>\<open>buffer.last\<close> are
  offsets into the memory object that holds the buffer; the object's bytes are passed
  beside the parser, and returned when a function stores into them. The functions
  compare with \<^verbatim>\<open>buffer.last\<close> as the code does (\<^verbatim>\<open>current <= last\<close>); the
  properties take the buffer to be the bytes from \<^verbatim>\<open>buffer.start\<close> to
  \<^verbatim>\<open>buffer.last\<close>, both included, as the spec does.
\<close>

record yaml_mark_t =
  mark_line :: "64 word"
  mark_column :: "64 word"

datatype yaml_parser_state_t =
    YAML_PARSE_STREAM_START_STATE
  | YAML_PARSE_IMPLICIT_DOCUMENT_START_STATE
  | YAML_PARSE_DOCUMENT_START_STATE
  | YAML_PARSE_DOCUMENT_CONTENT_STATE
  | YAML_PARSE_DOCUMENT_END_STATE
  | YAML_PARSE_BLOCK_NODE_STATE
  | YAML_PARSE_BLOCK_NODE_OR_INDENTLESS_SEQUENCE_STATE
  | YAML_PARSE_FLOW_NODE_STATE
  | YAML_PARSE_BLOCK_SEQUENCE_FIRST_ENTRY_STATE
  | YAML_PARSE_BLOCK_SEQUENCE_ENTRY_STATE
  | YAML_PARSE_INDENTLESS_SEQUENCE_ENTRY_STATE
  | YAML_PARSE_BLOCK_MAPPING_FIRST_KEY_STATE
  | YAML_PARSE_BLOCK_MAPPING_KEY_STATE
  | YAML_PARSE_BLOCK_MAPPING_VALUE_STATE
  | YAML_PARSE_FLOW_SEQUENCE_FIRST_ENTRY_STATE
  | YAML_PARSE_FLOW_SEQUENCE_ENTRY_STATE
  | YAML_PARSE_FLOW_SEQUENCE_ENTRY_MAPPING_KEY_STATE
  | YAML_PARSE_FLOW_SEQUENCE_ENTRY_MAPPING_VALUE_STATE
  | YAML_PARSE_FLOW_SEQUENCE_ENTRY_MAPPING_END_STATE
  | YAML_PARSE_FLOW_MAPPING_FIRST_KEY_STATE
  | YAML_PARSE_FLOW_MAPPING_KEY_STATE
  | YAML_PARSE_FLOW_MAPPING_VALUE_STATE
  | YAML_PARSE_FLOW_MAPPING_EMPTY_VALUE_STATE
  | YAML_PARSE_END_STATE

record yaml_parser_t =
  problem :: string
  problem_mark :: yaml_mark_t
  buffer_start :: nat
  buffer_pointer :: nat
  buffer_last :: nat
  token_available :: bool
  state :: yaml_parser_state_t

type_synonym memory = "char list"

text \<open>A load \<^verbatim>\<open>*p\<close>: the byte at the offset, or a fault outside the object.\<close>

definition load :: "memory \<Rightarrow> nat \<Rightarrow> fault + char" where
  "load mem p = (if p < length mem then Inr (mem ! p) else Inl (Invalid_Access p))"

text \<open>
  The loops of \<^verbatim>\<open>get_parser_error_context\<close>. Each takes the loop's variables and the
  list of the offsets loaded so far, and returns them as the loop leaves them.

  \<^verbatim>\<open>while (current > parser->buffer.start) {\<close>
  \<^verbatim>\<open>    current--;\<close>
  \<^verbatim>\<open>    if (*current == '\n') { line = current + 1; break; }\<close>
  \<^verbatim>\<open>}\<close>
\<close>

function scan_back :: "memory \<Rightarrow> nat \<Rightarrow> nat \<Rightarrow> nat \<Rightarrow> nat list \<Rightarrow> fault + (nat \<times> nat \<times> nat list)" where
  "scan_back mem start line current loads =
     (if current > start then
        (case load mem (current - 1) of
           Inl f \<Rightarrow> Inl f
         | Inr c \<Rightarrow>
             if c = NL then Inr (current - 1 + 1, current - 1, loads @ [current - 1])
             else scan_back mem start line (current - 1) (loads @ [current - 1]))
      else Inr (line, current, loads))"
  by pat_completeness auto
termination
  by (relation "measure (\<lambda>(mem, start, line, current, loads). current)") auto

text \<open>
  \<^verbatim>\<open>while (current <= parser->buffer.last) {\<close>
  \<^verbatim>\<open>    if (*current == '\n') { *current = '\0'; break; }\<close>
  \<^verbatim>\<open>    current++;\<close>
  \<^verbatim>\<open>}\<close>
\<close>

function scan_forward :: "memory \<Rightarrow> nat \<Rightarrow> nat \<Rightarrow> nat list \<Rightarrow> fault + (memory \<times> nat list)" where
  "scan_forward mem lastp current loads =
     (if current \<le> lastp then
        (case load mem current of
           Inl f \<Rightarrow> Inl f
         | Inr c \<Rightarrow>
             if c = NL then Inr (mem[current := NUL], loads @ [current])
             else scan_forward mem lastp (current + 1) (loads @ [current]))
      else Inr (mem, loads))"
  by pat_completeness auto
termination
  by (relation "measure (\<lambda>(mem, lastp, current, loads). Suc lastp - current)") auto

text \<open>
  The conversion \<^verbatim>\<open>%s\<close> of a pointer into memory: it loads byte after byte, from the
  pointer on, until it has loaded a NUL.
\<close>

function c_string :: "memory \<Rightarrow> nat \<Rightarrow> string \<Rightarrow> nat list \<Rightarrow> fault + (string \<times> nat list)" where
  "c_string mem p str loads =
     (case load mem p of
        Inl f \<Rightarrow> Inl f
      | Inr c \<Rightarrow>
          if c = NUL then Inr (str, loads @ [p])
          else c_string mem (p + 1) (str @ [c]) (loads @ [p]))"
  by pat_completeness auto
termination
  by (relation "measure (\<lambda>(mem, p, str, loads). length mem - p)")
     (auto simp add: load_def split: if_splits)

text \<open>
  \<^verbatim>\<open>get_parser_error_context\<close>: the context block (the line and the caret line), the
  memory as the call leaves it, and the offsets it loaded, in order.
\<close>

definition get_parser_error_context :: "yaml_parser_t \<Rightarrow> memory \<Rightarrow> fault + (string \<times> memory \<times> nat list)" where
  "get_parser_error_context parser mem =
     (let line = buffer_pointer parser;
          current = line
      in (case scan_back mem (buffer_start parser) line current [] of
            Inl f \<Rightarrow> Inl f
          | Inr (line, current, loads) \<Rightarrow>
              (let line = (if current \<le> buffer_start parser then buffer_start parser else line);
                   current = line + 1
               in (case scan_forward mem (buffer_last parser) current loads of
                     Inl f \<Rightarrow> Inl f
                   | Inr (mem', loads) \<Rightarrow>
                       (case c_string mem' line [] loads of
                          Inl f \<Rightarrow> Inl f
                        | Inr (str, loads) \<Rightarrow>
                            Inr (write_error_marker (str @ [NL])
                                   (size_t_to_int (mark_column (problem_mark parser))),
                                 mem', loads))))))"

subsection \<open>The syntax-error formatter\<close>


subsection \<open>The file line locator\<close>

text \<open>
  Reading a file is GLib's work. \<^verbatim>\<open>g_file_read\<close> on a path either reports an error
  or opens a stream on the bytes of the file: a file system is a function from paths to
  one of the two. \<^verbatim>\<open>g_data_input_stream_read_line\<close> (with the stream's default
  line ending, a line feed) returns the bytes up to the next line feed, which it
  consumes with them; at the end of the stream it returns null. The result is the line
  and the rest of the stream.
\<close>

type_synonym file_system = "string \<Rightarrow> raised_error + string"

fun g_data_input_stream_read_line :: "string \<Rightarrow> string option \<times> string" where
  "g_data_input_stream_read_line [] = (None, [])"
| "g_data_input_stream_read_line (c # cs) =
     (Some (takeWhile (\<lambda>x. x \<noteq> NL) (c # cs)), drop 1 (dropWhile (\<lambda>x. x \<noteq> NL) (c # cs)))"

text \<open>
  \<^verbatim>\<open>g_file_read\<close> with the location \<^verbatim>\<open>error\<close>: a stream (null on failure) and the
  location, which GLib fills as \<^verbatim>\<open>g_set_error\<close> does.
\<close>

definition g_file_read :: "file_system \<Rightarrow> string \<Rightarrow> error_out \<Rightarrow> string option \<times> error_out" where
  "g_file_read fs path error =
     (case fs path of
        Inl e \<Rightarrow> (None, g_set_error error (domain e) (code e) (message e))
      | Inr bytes \<Rightarrow> (Some bytes, error))"

text \<open>
  \<^verbatim>\<open>for (int i = 0; i < line_num + 1; i++) {\<close>
  \<^verbatim>\<open>    g_free(line);\<close>
  \<^verbatim>\<open>    line = g_data_input_stream_read_line(stream, &len, NULL, error);\<close>
  \<^verbatim>\<open>}\<close>
  The loop's bound \<open>n\<close> is the value of \<^verbatim>\<open>line_num + 1\<close>. On a null stream GLib
  returns null at once.
\<close>

function read_loop :: "int \<Rightarrow> int \<Rightarrow> string option \<Rightarrow> string option \<Rightarrow> string option" where
  "read_loop i n stream line =
     (if i < n then
        (case stream of
           None \<Rightarrow> read_loop (i + 1) n None None
         | Some bytes \<Rightarrow>
             (case g_data_input_stream_read_line bytes of
                (line', rest) \<Rightarrow> read_loop (i + 1) n (Some rest) line'))
      else line)"
  by pat_completeness auto
termination
  by (relation "measure (\<lambda>(i, n, stream, line). nat (n - i))") auto

record NetplanParser =
  current_filepath :: "string option"

text \<open>
  \<^verbatim>\<open>get_syntax_error_context\<close>: the context block and the error location. Its
  only caller passes a parser with a file path. The sum \<^verbatim>\<open>line_num + 1\<close> of two
  \<^verbatim>\<open>int\<close> overflows when \<^verbatim>\<open>line_num\<close> is \<^verbatim>\<open>INT_MAX\<close>.
\<close>

definition get_syntax_error_context :: "file_system \<Rightarrow> NetplanParser \<Rightarrow> int \<Rightarrow> int \<Rightarrow> error_out \<Rightarrow> fault + (string \<times> error_out)" where
  "get_syntax_error_context fs npp line_num column error =
     (case current_filepath npp of
        None \<Rightarrow> Inl Null_Pointer
      | Some path \<Rightarrow>
          (case g_file_read fs path error of
             (stream, error) \<Rightarrow>
               if line_num = INT_MAX then Inl Signed_Overflow
               else
                 (let line = read_loop 0 (line_num + 1) stream None
                  in Inr (write_error_marker (fmt_s line @ [NL]) column, error))))"

subsection \<open>The semantic-error formatter\<close>

text \<open>
  \<^verbatim>\<open>yaml_error\<close>. The node may be null; of a node only its start mark is read. The
  string \<open>s\<close> is what \<^verbatim>\<open>g_vasprintf\<close> made of the format \<^verbatim>\<open>msg\<close> and its
  arguments. The result is the error location and the returned \<^verbatim>\<open>gboolean\<close>.
\<close>

record yaml_node_t =
  start_mark :: yaml_mark_t

definition yaml_error :: "file_system \<Rightarrow> NetplanParser \<Rightarrow> yaml_node_t option \<Rightarrow> error_out \<Rightarrow> string \<Rightarrow> fault + (error_out \<times> bool)" where
  "yaml_error fs npp node error s =
     (case (node, current_filepath npp) of
        (Some n, Some filepath) \<Rightarrow>
          (case get_syntax_error_context fs npp
                  (size_t_to_int (mark_line (start_mark n)))
                  (size_t_to_int (mark_column (start_mark n))) error of
             Inl f \<Rightarrow> Inl f
           | Inr (error_context, error) \<Rightarrow>
               Inr (g_set_error error NETPLAN_PARSER_ERROR NETPLAN_ERROR_INVALID_CONFIG
                      (filepath @ '':'' @ fmt_zu (mark_line (start_mark n) + 1)
                         @ '':'' @ fmt_zu (mark_column (start_mark n) + 1)
                         @ '': Error in network definition: '' @ s @ [NL] @ error_context),
                    False))
      | (None, Some filepath) \<Rightarrow>
          Inr (g_set_error error NETPLAN_VALIDATION_ERROR NETPLAN_ERROR_CONFIG_VALIDATION
                 (filepath @ '': Error in network definition: '' @ s),
               False)
      | (_, None) \<Rightarrow>
          Inr (g_set_error error NETPLAN_VALIDATION_ERROR NETPLAN_ERROR_CONFIG_GENERIC
                 (''Error in network definition: '' @ s),
               False))"

subsection \<open>The lines of a file\<close>

text \<open>
  What the claims call the lines of a file, independently of how the locator reads
  them: the bytes between line feeds, and the bytes after the last line feed when there
  are any. (\<open>split_lines\<close> carries the line it is collecting.)
\<close>

fun split_lines :: "string \<Rightarrow> string \<Rightarrow> string list" where
  "split_lines cur [] = (if cur = [] then [] else [cur])"
| "split_lines cur (c # cs) = (if c = NL then cur # split_lines [] cs else split_lines (cur @ [c]) cs)"

definition file_lines :: "string \<Rightarrow> string list" where
  "file_lines bytes = split_lines [] bytes"

subsection \<open>The line containing the pointer, as the spec words it\<close>

text \<open>
  The spec's \<^verbatim>\<open>locate_in_buffer\<close>, to compare the locator with. \<open>bytes_between mem a b\<close>
  are the bytes at the offsets \<open>a \<le> i < b\<close>. The line begins after the nearest line feed
  strictly before the pointer, or at \<^verbatim>\<open>buffer_start\<close> when there is none; it ends
  before the next line feed at or after its beginning, or with the byte at
  \<^verbatim>\<open>buffer_last\<close> when there is none.
\<close>

definition bytes_between :: "memory \<Rightarrow> nat \<Rightarrow> nat \<Rightarrow> string" where
  "bytes_between mem a b = take (b - a) (drop a mem)"

definition spec_line_start :: "memory \<Rightarrow> nat \<Rightarrow> nat \<Rightarrow> nat" where
  "spec_line_start mem start pointer =
     pointer - length (takeWhile (\<lambda>c. c \<noteq> NL) (rev (bytes_between mem start pointer)))"

definition spec_line :: "memory \<Rightarrow> nat \<Rightarrow> nat \<Rightarrow> nat \<Rightarrow> string" where
  "spec_line mem start pointer lastp =
     takeWhile (\<lambda>c. c \<noteq> NL) (bytes_between mem (spec_line_start mem start pointer) (Suc lastp))"

subsection \<open>The heuristic classifier, as the spec words it\<close>





declare decimal.simps [simp del]
declare marker_loop.simps [simp del]
declare scan_back.simps [simp del]
declare scan_forward.simps [simp del]
declare c_string.simps [simp del]
declare read_loop.simps [simp del]

section \<open>Properties\<close>

subsection \<open>The composite error code\<close>

lemma msb_iff_negative: "bit (c :: 32 word) 31 = (sint c < 0)"
  using bit_last_iff [of c] by simp

lemma scast_nonnegative:
  assumes "0 \<le> sint (c :: 32 word)"
  shows "(scast c :: 64 word) = ucast c"
proof (rule bit_word_eqI)
  fix n :: nat
  assume "n < LENGTH(64)"
  have top: "\<not> bit c 31"
    using assms msb_iff_negative [of c] by simp
  have hi: "\<not> bit c k" if "31 \<le> k" for k
  proof (cases "k = 31")
    case True
    then show ?thesis using top by simp
  next
    case False
    then have "\<not> k < LENGTH(32)" using that by simp
    then show ?thesis using bit_imp_le_length [of c k] by blast
  qed
  show "bit (scast c :: 64 word) n = bit (ucast c :: 64 word) n"
    using hi [of n] top by (cases "n < 31") (auto simp add: bit_simps min_def)
qed

lemma netplan_error_code_low: "(ucast (netplan_error_code error) :: 32 word) = code error"
  unfolding netplan_error_code_def Let_def
  by (rule bit_word_eqI) (auto simp add: bit_simps)

lemma netplan_error_code_high:
  "0 \<le> sint (code error) \<Longrightarrow>
   (ucast (drop_bit 32 (netplan_error_code error)) :: 32 word) = domain error"
  unfolding netplan_error_code_def Let_def
  apply (simp add: scast_nonnegative)
  apply (rule bit_word_eqI)
  apply (auto simp add: bit_simps dest: bit_imp_le_length)
  done

text \<open>
  C8, as stated, fails: the code of a \<^verbatim>\<open>GError\<close> is a signed \<^verbatim>\<open>gint\<close>, and the
  cast \<^verbatim>\<open>(uint64_t)error->code\<close> of a negative code sets all of the high 32 bits.
  For domain 1 and code -1 the high half of the composite is \<open>0xFFFFFFFF\<close>, not 1.
\<close>

theorem netplan_error_code_negative_code:
  "(ucast (drop_bit 32 (netplan_error_code \<lparr>domain = 1, code = - 1, message = ''''\<rparr>)) :: 32 word)
     \<noteq> domain (\<lparr>domain = 1, code = - 1, message = ''''\<rparr> :: NetplanError)"
  unfolding netplan_error_code_def Let_def
  by (simp add: mask_eq_exp_minus_1)

text \<open>
  C8, amended: for every domain and every subcode that is not negative,
  \<^verbatim>\<open>netplan_error_code\<close> returns \<open>(domain << 32) | subcode\<close>, the high 32 bits of
  the composite are the domain and the low 32 bits are the subcode.
\<close>

theorem netplan_error_code_roundtrip:
  assumes "0 \<le> sint (code error)"
  shows "netplan_error_code error
           = push_bit 32 (ucast (domain error) :: 64 word) OR (ucast (code error) :: 64 word)
         \<and> (ucast (drop_bit 32 (netplan_error_code error)) :: 32 word) = domain error
         \<and> (ucast (netplan_error_code error) :: 32 word) = code error"
proof -
  have "netplan_error_code error
          = push_bit 32 (ucast (domain error) :: 64 word) OR (ucast (code error) :: 64 word)"
    using assms by (simp add: netplan_error_code_def scast_nonnegative)
  then show ?thesis
    using netplan_error_code_high [OF assms] netplan_error_code_low [of error] by simp
qed

theorem netplan_error_code_roundtrip_witness:
  "netplan_error_code \<lparr>domain = 2, code = 1, message = ''m''\<rparr> = 8589934593
   \<and> (ucast (drop_bit 32 (netplan_error_code \<lparr>domain = 2, code = 1, message = ''m''\<rparr>)) :: 32 word) = 2
   \<and> (ucast (netplan_error_code \<lparr>domain = 2, code = 1, message = ''m''\<rparr>) :: 32 word) = 1"
  using netplan_error_code_roundtrip [of "\<lparr>domain = 2, code = 1, message = ''m''\<rparr>"]
  by simp

subsection \<open>Copying the message out\<close>

text \<open>
  C9: \<^verbatim>\<open>netplan_error_message\<close> changes at most the first \<open>buf_size\<close> bytes of the
  destination (a buffer that really has that capacity keeps its length and every byte
  from \<open>buf_size\<close> on), what it writes is a prefix of the message, and the count it
  returns is the number of bytes written, at most \<open>buf_size\<close>.
\<close>

theorem netplan_error_message_bounded:
  assumes "buf_size \<le> length buf"
    and "netplan_error_message error buf buf_size = (buf', n)"
  shows "0 \<le> n \<and> n \<le> int buf_size
         \<and> length buf' = length buf
         \<and> drop buf_size buf' = drop buf_size buf
         \<and> take (nat n) buf' = take (nat n) (message error)
         \<and> drop (nat n) buf' = drop (nat n) buf"
proof -
  define k where "k = min (length (message error)) buf_size"
  have n: "n = int k" and b: "buf' = take k (message error) @ drop k buf"
    using assms(2) by (simp_all add: netplan_error_message_def netplan_copy_string_def k_def Let_def)
  have k1: "k \<le> buf_size" and k2: "k \<le> length (message error)" and k3: "k \<le> length buf"
    using assms(1) by (simp_all add: k_def)
  have len: "length (take k (message error)) = k"
    using k2 by simp
  have "drop buf_size buf' = drop (buf_size - k) (drop k buf)"
    using k1 len by (simp add: b)
  also have "\<dots> = drop buf_size buf"
    using k1 by simp
  finally have d: "drop buf_size buf' = drop buf_size buf" .
  show ?thesis
    using k1 k2 k3 d len by (simp add: n b)
qed

theorem netplan_error_message_bounded_witness:
  "netplan_error_message \<lparr>domain = 1, code = 0, message = ''abcdefghijklmnopqrst''\<rparr> ''....'' 4
     = (''abcd'', 4)
   \<and> (4 :: int) \<le> int 4
   \<and> drop 4 ''abcd'' = drop 4 ''....''"
proof -
  have eq: "netplan_error_message \<lparr>domain = 1, code = 0, message = ''abcdefghijklmnopqrst''\<rparr> ''....'' 4
              = (''abcd'', 4)"
    by (simp add: netplan_error_message_def netplan_copy_string_def)
  have "(4 :: nat) \<le> length ''....''" by simp
  from netplan_error_message_bounded [OF this eq] eq show ?thesis by simp
qed

subsection \<open>The caret line\<close>

lemma marker_loop_eq:
  "marker_loop i column msg = msg @ replicate (if column > 0 then nat (column - i) else 0) SPC"
proof (induction i column msg rule: marker_loop.induct)
  case (1 i column msg)
  show ?case
  proof (cases "column > 0 \<and> i < column")
    case True
    then have "nat (column - i) = Suc (nat (column - (i + 1)))" by arith
    with True 1 show ?thesis
      by (subst marker_loop.simps) (simp add: replicate_append_same)
  next
    case False
    then show ?thesis
      by (subst marker_loop.simps) auto
  qed
qed

lemma write_error_marker_eq:
  "write_error_marker msg column = msg @ replicate (nat column) SPC @ ''^''"
  by (simp add: write_error_marker_def marker_loop_eq)

subsection \<open>Reading lines from a file\<close>

lemma split_lines_step:
  "cur @ s \<noteq> [] \<Longrightarrow>
   split_lines cur s
     = (cur @ takeWhile (\<lambda>x. x \<noteq> NL) s) # split_lines [] (drop 1 (dropWhile (\<lambda>x. x \<noteq> NL) s))"
  by (induction s arbitrary: cur) auto

lemma file_lines_Nil [simp]: "file_lines [] = []"
  by (simp add: file_lines_def)

lemma read_line_file_lines:
  "bytes \<noteq> [] \<Longrightarrow>
   \<exists>l rest. g_data_input_stream_read_line bytes = (Some l, rest) \<and> file_lines bytes = l # file_lines rest"
  using split_lines_step [of "[]" bytes]
  by (cases bytes) (simp_all add: file_lines_def)

lemma file_lines_empty_iff: "file_lines bytes = [] \<longleftrightarrow> bytes = []"
proof (cases "bytes = []")
  case True
  then show ?thesis by simp
next
  case False
  then show ?thesis using read_line_file_lines [of bytes] by auto
qed

lemma read_loop_found:
  "k < length (file_lines bytes) \<Longrightarrow> n = i + int k + 1 \<Longrightarrow>
   read_loop i n (Some bytes) line = Some (file_lines bytes ! k)"
proof (induction k arbitrary: bytes i line)
  case 0
  then have "bytes \<noteq> []" by (auto simp add: file_lines_empty_iff)
  then obtain l rest where r: "g_data_input_stream_read_line bytes = (Some l, rest)"
    and f: "file_lines bytes = l # file_lines rest"
    using read_line_file_lines by blast
  have "read_loop i n (Some bytes) line = read_loop (i + 1) n (Some rest) (Some l)"
    using 0 r by (subst read_loop.simps) simp
  also have "\<dots> = Some l"
    using 0 by (subst read_loop.simps) simp
  finally show ?case using f by simp
next
  case (Suc k)
  then have "bytes \<noteq> []" by (auto simp add: file_lines_empty_iff)
  then obtain l rest where r: "g_data_input_stream_read_line bytes = (Some l, rest)"
    and f: "file_lines bytes = l # file_lines rest"
    using read_line_file_lines by blast
  have "read_loop i n (Some bytes) line = read_loop (i + 1) n (Some rest) (Some l)"
    using Suc.prems r by (subst read_loop.simps) simp
  also have "\<dots> = Some (file_lines rest ! k)"
    using Suc.prems f by (intro Suc.IH) simp_all
  finally show ?case using f by simp
qed

lemma read_loop_at_end:
  "read_loop i n (Some []) None = None"
proof (induction i n "Some ([] :: string)" "None :: string option" rule: read_loop.induct)
  case (1 i n)
  then show ?case
    by (subst read_loop.simps) simp
qed

lemma read_loop_exhausted:
  "length (file_lines bytes) = k \<Longrightarrow> int k < n - i \<Longrightarrow>
   read_loop i n (Some bytes) line = None"
proof (induction k arbitrary: bytes i line)
  case 0
  then have b: "bytes = []" by (simp add: file_lines_empty_iff)
  have "read_loop i n (Some bytes) line = read_loop (i + 1) n (Some []) None"
    using 0 b by (subst read_loop.simps) simp
  then show ?case by (simp add: read_loop_at_end)
next
  case (Suc k)
  then have "bytes \<noteq> []" by auto
  then obtain l rest where r: "g_data_input_stream_read_line bytes = (Some l, rest)"
    and f: "file_lines bytes = l # file_lines rest"
    using read_line_file_lines by blast
  have "read_loop i n (Some bytes) line = read_loop (i + 1) n (Some rest) (Some l)"
    using Suc.prems r by (subst read_loop.simps) simp
  also have "\<dots> = None"
    using Suc.prems f by (intro Suc.IH) simp_all
  finally show ?case .
qed

lemma size_t_to_int_small:
  assumes "unat n < 2147483648"
  shows "size_t_to_int n = int (unat n)"
proof -
  have "int (unat n) < 2147483648"
    using assms by linarith
  then have u: "uint n < 2147483648"
    by (simp only: uint_nat)
  have nn: "0 \<le> uint n"
    by simp
  have lo: "- 2147483648 \<le> uint n"
    using uint_ge_0 [of n] by linarith
  have "uint (ucast n :: 32 word) = take_bit 32 (uint n)"
    using unsigned_ucast_eq [where ?'c = 32 and w = n, where ?'a = int] by simp
  also have "\<dots> = uint n"
    using u nn by (intro take_bit_int_eq_self) simp_all
  finally have c: "uint (ucast n :: 32 word) = uint n" .
  have "sint (ucast n :: 32 word) = signed_take_bit 31 (uint (ucast n :: 32 word))"
    by (simp add: sint_uint)
  also have "\<dots> = uint n"
    unfolding c using u lo by (intro signed_take_bit_int_eq_self) simp_all
  finally show ?thesis
    by (simp add: size_t_to_int_def)
qed

lemma unat_succ:
  assumes "unat (n :: 64 word) < 2147483648"
  shows "unat (n + 1) = unat n + 1"
proof -
  have "unat n + unat (1 :: 64 word) < 2 ^ LENGTH(64)"
    using assms by simp
  then show ?thesis
    using unat_add_lem [of n 1] by simp
qed

lemma fmt_zu_succ:
  "unat (n :: 64 word) < 2147483648 \<Longrightarrow> fmt_zu (n + 1) = decimal (unat n + 1)"
  by (simp add: fmt_zu_def unat_succ)

lemma get_syntax_error_context_found:
  assumes "current_filepath npp = Some path"
    and "fs path = Inr bytes"
    and "0 \<le> line_num" and "line_num < INT_MAX"
    and "nat line_num < length (file_lines bytes)"
  shows "get_syntax_error_context fs npp line_num column error
           = Inr (takeWhile (\<lambda>c. c \<noteq> NUL) (file_lines bytes ! nat line_num) @ [NL]
                    @ replicate (nat column) SPC @ ''^'', error)"
proof -
  have "read_loop 0 (line_num + 1) (Some bytes) None = Some (file_lines bytes ! nat line_num)"
    using assms(3,5) by (intro read_loop_found) simp_all
  then show ?thesis
    using assms(1,2,4)
    by (simp add: get_syntax_error_context_def g_file_read_def write_error_marker_eq fmt_s_def)
qed

lemma get_syntax_error_context_exhausted:
  assumes "current_filepath npp = Some path"
    and "fs path = Inr bytes"
    and "int (length (file_lines bytes)) < line_num + 1"
    and "line_num < INT_MAX"
  shows "get_syntax_error_context fs npp line_num column error
           = Inr (write_error_marker (fmt_s None @ [NL]) column, error)"
proof -
  have "read_loop 0 (line_num + 1) (Some bytes) None = None"
    using assms(3) by (intro read_loop_exhausted [OF refl]) simp
  then show ?thesis
    using assms(1,2,4)
    by (simp add: get_syntax_error_context_def g_file_read_def)
qed

text \<open>
  C3, as stated, fails: the loop keeps no line once a read has failed. For a file of
  two lines and \<^verbatim>\<open>line_num = 2\<close> (three reads) the third read returns null and
  replaces the second line, so the context is formatted from a null line, not from the
  last line read.
\<close>

theorem file_locator_short_file_null_line:
  "read_loop 0 (2 + 1) (Some (''a'' @ [NL] @ ''b'' @ [NL])) None = None
   \<and> get_syntax_error_context (\<lambda>p. Inr (''a'' @ [NL] @ ''b'' @ [NL])) \<lparr>current_filepath = Some ''f''\<rparr> 2 0 (Location None)
       = Inr (''(null)'' @ [NL] @ ''^'', Location None)"
  by (simp add: get_syntax_error_context_def g_file_read_def read_loop.simps INT_MAX_def
      write_error_marker_def marker_loop.simps fmt_s_def)

text \<open>
  C3, amended: when the file can be opened but has fewer lines than
  \<^verbatim>\<open>line_num + 1\<close>, the line kept after the loop is null: every read past the end of
  the file returns null and replaces the line read before. The locator still returns,
  with a context block formatted from the null line, and leaves the error location as
  it was.
\<close>

theorem file_locator_short_file:
  assumes "current_filepath npp = Some path"
    and "fs path = Inr bytes"
    and "int (length (file_lines bytes)) < line_num + 1"
    and "line_num < INT_MAX"
  shows "read_loop 0 (line_num + 1) (Some bytes) None = None
         \<and> get_syntax_error_context fs npp line_num column error
             = Inr (write_error_marker (fmt_s None @ [NL]) column, error)"
proof -
  have "read_loop 0 (line_num + 1) (Some bytes) None = None"
    using assms(3) by (intro read_loop_exhausted [OF refl]) simp
  then show ?thesis
    using get_syntax_error_context_exhausted [of npp path fs bytes line_num column error] assms
    by simp
qed

theorem file_locator_short_file_witness:
  "read_loop 0 (1 + 1) (Some (''a'' @ [NL])) None = None
   \<and> get_syntax_error_context (\<lambda>p. Inr (''a'' @ [NL])) \<lparr>current_filepath = Some ''f''\<rparr> 1 3 (Location None)
       = Inr (''(null)'' @ [NL] @ ''   ^'', Location None)"
proof -
  have l: "int (length (file_lines (''a'' @ [NL]))) < 1 + 1"
    by (simp add: file_lines_def)
  have m: "(1 :: int) < INT_MAX"
    by (simp add: INT_MAX_def)
  have p: "current_filepath \<lparr>current_filepath = Some ''f''\<rparr> = Some ''f''"
    by simp
  have f: "(\<lambda>p :: string. Inr (''a'' @ [NL]) :: raised_error + string) ''f'' = Inr (''a'' @ [NL])"
    by simp
  show ?thesis
    using file_locator_short_file [of "\<lparr>current_filepath = Some ''f''\<rparr>" "''f''"
        "\<lambda>p. Inr (''a'' @ [NL])" "''a'' @ [NL]" 1 3 "Location None"] p f l m
    by (simp add: write_error_marker_def marker_loop.simps fmt_s_def)
qed

subsection \<open>Semantic errors\<close>

text \<open>
  C5, as stated, fails for positions that do not fit the \<^verbatim>\<open>int\<close> parameters of
  \<^verbatim>\<open>get_syntax_error_context\<close>: column \<open>2\<^sup>3\<^sup>1\<close> arrives there as a negative
  number, and the caret line has no leading space at all.
\<close>

theorem yaml_error_with_node_wide_column:
  "yaml_error (\<lambda>p. Inr (''a'' @ [NL])) \<lparr>current_filepath = Some ''net.yaml''\<rparr>
      (Some \<lparr>start_mark = \<lparr>mark_line = 0, mark_column = 2147483648\<rparr>\<rparr>) (Location None) ''m''
     = Inr (Location (Some \<lparr>domain = NETPLAN_PARSER_ERROR,
                             code = NETPLAN_ERROR_INVALID_CONFIG,
                             message = ''net.yaml:1:2147483649: Error in network definition: m'' @ [NL]
                               @ ''a'' @ [NL] @ ''^''\<rparr>),
            False)
   \<and> ''^'' \<noteq> replicate (unat (2147483648 :: 64 word)) SPC @ ''^''"
  apply (simp add: yaml_error_def get_syntax_error_context_def g_file_read_def read_loop.simps INT_MAX_def
      write_error_marker_def marker_loop.simps fmt_s_def size_t_to_int_def g_set_error_def fmt_zu_def decimal.simps)
  done

text \<open>
  C5, amended: for a node position (line \<open>L\<close>, column \<open>C\<close>) with \<open>L < 2\<^sup>3\<^sup>1 - 1\<close> and
  \<open>C < 2\<^sup>3\<^sup>1\<close>, a known file path whose file can be read and has at least \<open>L + 1\<close>
  lines, and an empty error location, the error raised has the message
  \<^verbatim>\<open><path>:<L+1>:<C+1>: Error in network definition: <formatted message>\<close>, a line
  feed, the \<open>(L+1)\<close>-th line of the file (up to its first NUL byte, if it has one), a
  line feed, and a caret line of \<open>C\<close> spaces and a caret.
\<close>

theorem yaml_error_with_node:
  assumes "current_filepath npp = Some path"
    and "fs path = Inr bytes"
    and "unat L < 2147483647"
    and "unat C < 2147483648"
    and "unat L < length (file_lines bytes)"
  shows "yaml_error fs npp (Some \<lparr>start_mark = \<lparr>mark_line = L, mark_column = C\<rparr>\<rparr>) (Location None) s
           = Inr (Location (Some \<lparr>domain = NETPLAN_PARSER_ERROR,
                                   code = NETPLAN_ERROR_INVALID_CONFIG,
                                   message = path @ '':'' @ decimal (unat L + 1)
                                     @ '':'' @ decimal (unat C + 1)
                                     @ '': Error in network definition: '' @ s @ [NL]
                                     @ takeWhile (\<lambda>c. c \<noteq> NUL) (file_lines bytes ! unat L) @ [NL]
                                     @ replicate (unat C) SPC @ ''^''\<rparr>),
                  False)"
proof -
  have l: "size_t_to_int L = int (unat L)" and c: "size_t_to_int C = int (unat C)"
    using assms(3,4) by (simp_all add: size_t_to_int_small)
  have nonneg: "0 \<le> int (unat L)"
    by linarith
  have below: "int (unat L) < INT_MAX"
    unfolding INT_MAX_def using assms(3) by linarith
  have inside: "nat (int (unat L)) < length (file_lines bytes)"
    using assms(5) by (simp only: nat_int)
  have "get_syntax_error_context fs npp (int (unat L)) (int (unat C)) (Location None)
          = Inr (takeWhile (\<lambda>c. c \<noteq> NUL) (file_lines bytes ! nat (int (unat L))) @ [NL]
                   @ replicate (nat (int (unat C))) SPC @ ''^'', Location None)"
    by (rule get_syntax_error_context_found [OF assms(1) _ nonneg below inside]) (rule assms(2))
  then show ?thesis
    using assms(1,3,4)
    by (simp add: yaml_error_def l c g_set_error_def fmt_zu_succ)
qed

theorem yaml_error_with_node_witness:
  "yaml_error (\<lambda>p. Inr (''a'' @ [NL] @ ''b'' @ [NL] @ ''c'' @ [NL] @ ''d'' @ [NL] @ ''  ethernets: eth0'' @ [NL] @ ''f''))
      \<lparr>current_filepath = Some ''net.yaml''\<rparr>
      (Some \<lparr>start_mark = \<lparr>mark_line = 4, mark_column = 10\<rparr>\<rparr>) (Location None) ''bad key''
     = Inr (Location (Some \<lparr>domain = NETPLAN_PARSER_ERROR,
                             code = NETPLAN_ERROR_INVALID_CONFIG,
                             message = ''net.yaml:5:11: Error in network definition: bad key'' @ [NL]
                               @ ''  ethernets: eth0'' @ [NL]
                               @ replicate 10 SPC @ ''^''\<rparr>),
            False)"
proof -
  let ?bytes = "''a'' @ [NL] @ ''b'' @ [NL] @ ''c'' @ [NL] @ ''d'' @ [NL] @ ''  ethernets: eth0'' @ [NL] @ ''f''"
  have p: "current_filepath \<lparr>current_filepath = Some ''net.yaml''\<rparr> = Some ''net.yaml''"
    by simp
  have f: "(\<lambda>p :: string. Inr ?bytes :: raised_error + string) ''net.yaml'' = Inr ?bytes"
    by simp
  have h: "unat (4 :: 64 word) < 2147483647" "unat (10 :: 64 word) < 2147483648"
    "unat (4 :: 64 word) < length (file_lines ?bytes)"
    by (simp_all add: file_lines_def)
  show ?thesis
    using yaml_error_with_node [of "\<lparr>current_filepath = Some ''net.yaml''\<rparr>" "''net.yaml''"
        "\<lambda>p. Inr ?bytes" ?bytes 4 10 "''bad key''"] p f h
    by (simp add: file_lines_def decimal.simps)
qed

text \<open>
  C6: without a node position, \<^verbatim>\<open>yaml_error\<close> raises, through
  \<^verbatim>\<open>g_set_error\<close>, the validation-error domain; with a known file path the code is
  the config-validation one and the message is
  \<^verbatim>\<open><path>: Error in network definition: <msg>\<close> with nothing after it; with no file
  path the code is the generic one and the message is
  \<^verbatim>\<open>Error in network definition: <msg>\<close>. An empty error location then holds exactly
  this error.
\<close>

theorem yaml_error_without_node:
  "yaml_error fs \<lparr>current_filepath = Some path\<rparr> None error s
     = Inr (g_set_error error NETPLAN_VALIDATION_ERROR NETPLAN_ERROR_CONFIG_VALIDATION
              (path @ '': Error in network definition: '' @ s), False)
   \<and> yaml_error fs \<lparr>current_filepath = Some path\<rparr> None (Location None) s
     = Inr (Location (Some \<lparr>domain = NETPLAN_VALIDATION_ERROR,
                             code = NETPLAN_ERROR_CONFIG_VALIDATION,
                             message = path @ '': Error in network definition: '' @ s\<rparr>), False)
   \<and> yaml_error fs \<lparr>current_filepath = None\<rparr> None error s
     = Inr (g_set_error error NETPLAN_VALIDATION_ERROR NETPLAN_ERROR_CONFIG_GENERIC
              (''Error in network definition: '' @ s), False)
   \<and> yaml_error fs \<lparr>current_filepath = None\<rparr> None (Location None) s
     = Inr (Location (Some \<lparr>domain = NETPLAN_VALIDATION_ERROR,
                             code = NETPLAN_ERROR_CONFIG_GENERIC,
                             message = ''Error in network definition: '' @ s\<rparr>), False)"
  by (simp add: yaml_error_def g_set_error_def)

subsection \<open>The loops of the buffer line locator\<close>

text \<open>
  What each loop returns, by offsets: the backward scan stops at the nearest line feed
  below \<open>current\<close> or at \<open>start\<close>; the forward scan overwrites the first line feed
  it meets up to \<open>lastp\<close>; \<^verbatim>\<open>%s\<close> loads up to the first NUL, and faults when the
  memory object ends before one.
\<close>

lemma scan_back_stop:
  "current \<le> start \<Longrightarrow> scan_back mem start line current loads = Inr (line, current, loads)"
  by (subst scan_back.simps) simp

lemma scan_back_no_newline:
  "start \<le> current \<Longrightarrow> current \<le> length mem \<Longrightarrow>
   (\<forall>i. start \<le> i \<and> i < current \<longrightarrow> mem ! i \<noteq> NL) \<Longrightarrow>
   scan_back mem start line current loads = Inr (line, start, loads @ rev [start..<current])"
proof (induction current arbitrary: loads)
  case 0
  then show ?case by (simp add: scan_back_stop)
next
  case (Suc c)
  show ?case
  proof (cases "start \<le> c")
    case False
    with Suc.prems have "start = Suc c" by simp
    then show ?thesis by (simp add: scan_back_stop)
  next
    case True
    have c: "c < length mem" and nl: "mem ! c \<noteq> NL"
      using Suc.prems True by auto
    have "scan_back mem start line (Suc c) loads = scan_back mem start line c (loads @ [c])"
      using True c nl by (subst scan_back.simps) (simp add: load_def)
    also have "\<dots> = Inr (line, start, (loads @ [c]) @ rev [start..<c])"
      using Suc.prems True by (intro Suc.IH) auto
    finally show ?thesis using True by simp
  qed
qed

lemma scan_back_newline:
  "start \<le> j \<Longrightarrow> j < current \<Longrightarrow> current \<le> length mem \<Longrightarrow> mem ! j = NL \<Longrightarrow>
   (\<forall>i. j < i \<and> i < current \<longrightarrow> mem ! i \<noteq> NL) \<Longrightarrow>
   scan_back mem start line current loads = Inr (Suc j, j, loads @ rev [j..<current])"
proof (induction current arbitrary: loads)
  case 0
  then show ?case by simp
next
  case (Suc c)
  have c: "c < length mem" and s: "start < Suc c"
    using Suc.prems by auto
  show ?case
  proof (cases "j = c")
    case True
    then show ?thesis
      using Suc.prems c s by (subst scan_back.simps) (simp add: load_def)
  next
    case False
    then have jc: "j < c" using Suc.prems by simp
    then have nl: "mem ! c \<noteq> NL" using Suc.prems by simp
    have "scan_back mem start line (Suc c) loads = scan_back mem start line c (loads @ [c])"
      using s c nl by (subst scan_back.simps) (simp add: load_def)
    also have "\<dots> = Inr (Suc j, j, (loads @ [c]) @ rev [j..<c])"
      using Suc.prems jc by (intro Suc.IH) auto
    finally show ?thesis using jc by simp
  qed
qed

lemma scan_forward_stop:
  "lastp < current \<Longrightarrow> scan_forward mem lastp current loads = Inr (mem, loads)"
  by (subst scan_forward.simps) simp

lemma scan_forward_no_newline:
  "lastp < length mem \<Longrightarrow> (\<forall>i. current \<le> i \<and> i \<le> lastp \<longrightarrow> mem ! i \<noteq> NL) \<Longrightarrow>
   scan_forward mem lastp current loads = Inr (mem, loads @ [current..<Suc lastp])"
proof (induction "Suc lastp - current" arbitrary: current loads)
  case 0
  then show ?case by (simp add: scan_forward_stop)
next
  case (Suc n)
  then have le: "current \<le> lastp" and c: "current < length mem" and nl: "mem ! current \<noteq> NL"
    by auto
  have "scan_forward mem lastp current loads = scan_forward mem lastp (current + 1) (loads @ [current])"
    using le c nl by (subst scan_forward.simps) (simp add: load_def)
  also have "\<dots> = Inr (mem, (loads @ [current]) @ [current + 1..<Suc lastp])"
    using Suc by (intro Suc.hyps(1)) auto
  finally show ?case using le by (simp add: upt_conv_Cons)
qed

lemma scan_forward_newline:
  "current \<le> e \<Longrightarrow> e \<le> lastp \<Longrightarrow> e < length mem \<Longrightarrow> mem ! e = NL \<Longrightarrow>
   (\<forall>i. current \<le> i \<and> i < e \<longrightarrow> mem ! i \<noteq> NL) \<Longrightarrow>
   scan_forward mem lastp current loads = Inr (mem[e := NUL], loads @ [current..<Suc e])"
proof (induction "e - current" arbitrary: current loads)
  case 0
  then have "current = e" by simp
  then show ?case
    using 0 by (subst scan_forward.simps) (simp add: load_def)
next
  case (Suc n)
  then have lt: "current < e" by simp
  then have le: "current \<le> lastp" and c: "current < length mem" and nl: "mem ! current \<noteq> NL"
    using Suc.prems by auto
  have "scan_forward mem lastp current loads = scan_forward mem lastp (current + 1) (loads @ [current])"
    using le c nl by (subst scan_forward.simps) (simp add: load_def)
  also have "\<dots> = Inr (mem[e := NUL], (loads @ [current]) @ [current + 1..<Suc e])"
    using Suc lt by (intro Suc.hyps(1)) auto
  finally show ?case using lt by (simp add: upt_conv_Cons)
qed

lemma c_string_terminated:
  "p \<le> e \<Longrightarrow> e < length mem \<Longrightarrow> mem ! e = NUL \<Longrightarrow>
   (\<forall>i. p \<le> i \<and> i < e \<longrightarrow> mem ! i \<noteq> NUL) \<Longrightarrow>
   c_string mem p str loads = Inr (str @ map ((!) mem) [p..<e], loads @ [p..<Suc e])"
proof (induction "e - p" arbitrary: p str loads)
  case 0
  then have "p = e" by simp
  then show ?case
    using 0 by (subst c_string.simps) (simp add: load_def)
next
  case (Suc n)
  then have lt: "p < e" by simp
  then have c: "p < length mem" and nz: "mem ! p \<noteq> NUL"
    using Suc.prems by auto
  have "c_string mem p str loads = c_string mem (p + 1) (str @ [mem ! p]) (loads @ [p])"
    using c nz by (subst c_string.simps) (simp add: load_def)
  also have "\<dots> = Inr ((str @ [mem ! p]) @ map ((!) mem) [p + 1..<e], (loads @ [p]) @ [p + 1..<Suc e])"
    using Suc lt by (intro Suc.hyps(1)) auto
  finally show ?case using lt by (simp add: upt_conv_Cons)
qed

lemma c_string_unterminated:
  "(\<forall>i. p \<le> i \<and> i < length mem \<longrightarrow> mem ! i \<noteq> NUL) \<Longrightarrow>
   c_string mem p str loads = Inl (Invalid_Access (max p (length mem)))"
proof (induction "length mem - p" arbitrary: p str loads)
  case 0
  then show ?case
    by (subst c_string.simps) (simp add: load_def max_def)
next
  case (Suc n)
  then have c: "p < length mem" and nz: "mem ! p \<noteq> NUL"
    by auto
  have "c_string mem p str loads = c_string mem (p + 1) (str @ [mem ! p]) (loads @ [p])"
    using c nz by (subst c_string.simps) (simp add: load_def)
  also have "\<dots> = Inl (Invalid_Access (max (p + 1) (length mem)))"
    using Suc by (intro Suc.hyps(1)) auto
  finally show ?case using c by (simp add: max_def)
qed

lemma scan_back_result:
  "scan_back mem start line current loads = Inr (line', current', loads') \<Longrightarrow>
   (start \<le> current' \<and> current' < current \<and> current' < length mem \<and> mem ! current' = NL
      \<and> line' = Suc current' \<and> (\<forall>i. current' < i \<and> i < current \<longrightarrow> mem ! i \<noteq> NL))
   \<or> (line' = line \<and> current' \<le> start \<and> current' \<le> current
      \<and> (\<forall>i. start \<le> i \<and> i < current \<longrightarrow> mem ! i \<noteq> NL))"
proof (induction mem start line current loads rule: scan_back.induct)
  case (1 mem start line current loads)
  show ?case
  proof (cases "current > start")
    case False
    with "1.prems" show ?thesis
      by (subst (asm) scan_back.simps) auto
  next
    case True
    show ?thesis
    proof (cases "current - 1 < length mem")
      case False
      with True "1.prems" show ?thesis
        by (subst (asm) scan_back.simps) (simp add: load_def)
    next
      case inside: True
      show ?thesis
      proof (cases "mem ! (current - 1) = NL")
        case True
        with \<open>current > start\<close> inside "1.prems" show ?thesis
          by (subst (asm) scan_back.simps) (auto simp add: load_def)
      next
        case False
        have ld: "load mem (current - 1) = Inr (mem ! (current - 1))"
          using inside by (simp add: load_def)
        have rec: "scan_back mem start line (current - 1) (loads @ [current - 1]) = Inr (line', current', loads')"
          using \<open>current > start\<close> False "1.prems" ld
          by (subst (asm) scan_back.simps) simp
        have ih: "(start \<le> current' \<and> current' < current - 1 \<and> current' < length mem \<and> mem ! current' = NL
              \<and> line' = Suc current' \<and> (\<forall>i. current' < i \<and> i < current - 1 \<longrightarrow> mem ! i \<noteq> NL))
           \<or> (line' = line \<and> current' \<le> start \<and> current' \<le> current - 1
              \<and> (\<forall>i. start \<le> i \<and> i < current - 1 \<longrightarrow> mem ! i \<noteq> NL))"
          using "1.IH" [OF \<open>current > start\<close> ld False rec] .
        have step: "i < current \<Longrightarrow> i < current - 1 \<or> i = current - 1" for i
          by linarith
        from ih show ?thesis
        proof
          assume a: "start \<le> current' \<and> current' < current - 1 \<and> current' < length mem \<and> mem ! current' = NL
              \<and> line' = Suc current' \<and> (\<forall>i. current' < i \<and> i < current - 1 \<longrightarrow> mem ! i \<noteq> NL)"
          then have "\<forall>i. current' < i \<and> i < current \<longrightarrow> mem ! i \<noteq> NL"
            using False step by blast
          with a show ?thesis by auto
        next
          assume b: "line' = line \<and> current' \<le> start \<and> current' \<le> current - 1
              \<and> (\<forall>i. start \<le> i \<and> i < current - 1 \<longrightarrow> mem ! i \<noteq> NL)"
          then have "\<forall>i. start \<le> i \<and> i < current \<longrightarrow> mem ! i \<noteq> NL"
            using False step by blast
          with b show ?thesis by auto
        qed
      qed
    qed
  qed
qed

lemma scan_forward_result:
  "scan_forward mem lastp current loads = Inr (mem', loads') \<Longrightarrow>
   (mem' = mem \<and> (\<forall>i. current \<le> i \<and> i \<le> lastp \<longrightarrow> mem ! i \<noteq> NL))
   \<or> (\<exists>e. current \<le> e \<and> e \<le> lastp \<and> e < length mem \<and> mem ! e = NL
          \<and> (\<forall>i. current \<le> i \<and> i < e \<longrightarrow> mem ! i \<noteq> NL) \<and> mem' = mem[e := NUL])"
proof (induction mem lastp current loads rule: scan_forward.induct)
  case (1 mem lastp current loads)
  show ?case
  proof (cases "current \<le> lastp")
    case False
    with "1.prems" show ?thesis
      by (subst (asm) scan_forward.simps) auto
  next
    case True
    show ?thesis
    proof (cases "current < length mem")
      case False
      with True "1.prems" show ?thesis
        by (subst (asm) scan_forward.simps) (simp add: load_def)
    next
      case inside: True
      show ?thesis
      proof (cases "mem ! current = NL")
        case True
        have "mem' = mem[current := NUL]"
          using \<open>current \<le> lastp\<close> inside True "1.prems"
          by (subst (asm) scan_forward.simps) (simp add: load_def)
        then show ?thesis
          using \<open>current \<le> lastp\<close> inside True by auto
      next
        case False
        have ld: "load mem current = Inr (mem ! current)"
          using inside by (simp add: load_def)
        have rec: "scan_forward mem lastp (current + 1) (loads @ [current]) = Inr (mem', loads')"
          using \<open>current \<le> lastp\<close> False "1.prems" ld
          by (subst (asm) scan_forward.simps) simp
        have ih: "(mem' = mem \<and> (\<forall>i. current + 1 \<le> i \<and> i \<le> lastp \<longrightarrow> mem ! i \<noteq> NL))
           \<or> (\<exists>e. current + 1 \<le> e \<and> e \<le> lastp \<and> e < length mem \<and> mem ! e = NL
                  \<and> (\<forall>i. current + 1 \<le> i \<and> i < e \<longrightarrow> mem ! i \<noteq> NL) \<and> mem' = mem[e := NUL])"
          using "1.IH" [OF \<open>current \<le> lastp\<close> ld False rec] .
        have step: "current \<le> i \<Longrightarrow> i = current \<or> current + 1 \<le> i" for i
          by linarith
        from ih show ?thesis
        proof
          assume a: "mem' = mem \<and> (\<forall>i. current + 1 \<le> i \<and> i \<le> lastp \<longrightarrow> mem ! i \<noteq> NL)"
          then have "\<forall>i. current \<le> i \<and> i \<le> lastp \<longrightarrow> mem ! i \<noteq> NL"
            using False step by blast
          with a show ?thesis by blast
        next
          assume "\<exists>e. current + 1 \<le> e \<and> e \<le> lastp \<and> e < length mem \<and> mem ! e = NL
                  \<and> (\<forall>i. current + 1 \<le> i \<and> i < e \<longrightarrow> mem ! i \<noteq> NL) \<and> mem' = mem[e := NUL]"
          then obtain e where e: "current + 1 \<le> e" "e \<le> lastp" "e < length mem" "mem ! e = NL"
            "\<forall>i. current + 1 \<le> i \<and> i < e \<longrightarrow> mem ! i \<noteq> NL" "mem' = mem[e := NUL]"
            by blast
          have "\<forall>i. current \<le> i \<and> i < e \<longrightarrow> mem ! i \<noteq> NL"
            using e(5) False step by blast
          moreover have "current \<le> e" using e(1) by simp
          ultimately show ?thesis using e by blast
        qed
      qed
    qed
  qed
qed

subsection \<open>When the locator returns the line\<close>

lemma length_bytes_between: "b \<le> length mem \<Longrightarrow> length (bytes_between mem a b) = b - a"
  by (simp add: bytes_between_def)

lemma nth_bytes_between:
  "b \<le> length mem \<Longrightarrow> i < b - a \<Longrightarrow> bytes_between mem a b ! i = mem ! (a + i)"
  by (simp add: bytes_between_def)

lemma map_nth_upt: "b \<le> length mem \<Longrightarrow> map ((!) mem) [a..<b] = bytes_between mem a b"
  by (rule nth_equalityI) (simp_all add: length_bytes_between nth_bytes_between)

lemma take_bytes_between:
  "a + n \<le> b \<Longrightarrow> take n (bytes_between mem a b) = bytes_between mem a (a + n)"
  by (simp add: bytes_between_def min_def)

lemma takeWhile_holds: "i < length (takeWhile P xs) \<Longrightarrow> P (xs ! i)"
  using nth_mem [of i "takeWhile P xs"] set_takeWhileD [of "xs ! i" P xs] takeWhile_nth [of i P xs]
  by auto

lemma takeWhile_stops:
  "length (takeWhile P xs) < length xs \<Longrightarrow> \<not> P (xs ! length (takeWhile P xs))"
  by (rule nth_length_takeWhile)

lemma takeWhile_all: "length (takeWhile P xs) = length xs \<longleftrightarrow> (\<forall>x \<in> set xs. P x)"
  by (induction xs) auto

text \<open>The context block for a line that begins at \<open>ls\<close> and is cut at \<open>z\<close>.\<close>

lemma get_parser_error_context_newline:
  assumes "buffer_start parser \<le> ls" and "ls \<le> buffer_pointer parser"
    and "buffer_pointer parser \<le> length mem"
    and "\<forall>i. ls \<le> i \<and> i < buffer_pointer parser \<longrightarrow> mem ! i \<noteq> NL"
    and "ls = buffer_start parser \<or> (Suc (buffer_start parser) < ls \<and> mem ! (ls - 1) = NL)"
    and "Suc ls \<le> e" and "e \<le> buffer_last parser" and "e < length mem" and "mem ! e = NL"
    and "\<forall>i. Suc ls \<le> i \<and> i < e \<longrightarrow> mem ! i \<noteq> NL"
    and "ls \<le> z" and "z \<le> e" and "z = e \<or> mem ! z = NUL"
    and "\<forall>i. ls \<le> i \<and> i < z \<longrightarrow> mem ! i \<noteq> NUL"
  shows "\<exists>loads. get_parser_error_context parser mem
           = Inr (bytes_between mem ls z @ [NL]
                    @ replicate (nat (size_t_to_int (mark_column (problem_mark parser)))) SPC @ ''^'',
                  mem[e := NUL], loads)
         \<and> set loads \<subseteq> {buffer_start parser..buffer_last parser}"
proof -
  let ?start = "buffer_start parser" and ?pointer = "buffer_pointer parser"
  let ?lastp = "buffer_last parser"
  let ?mem' = "mem[e := NUL]"
  obtain line' current' where
    sb: "scan_back mem ?start ?pointer ?pointer [] = Inr (line', current', rev [current'..<?pointer])"
    and line2: "(if current' \<le> ?start then ?start else line') = ls"
    and cur: "?start \<le> current'"
  proof (cases "ls = ?start")
    case True
    have "scan_back mem ?start ?pointer ?pointer [] = Inr (?pointer, ?start, [] @ rev [?start..<?pointer])"
      using assms(1-4) True by (intro scan_back_no_newline) auto
    then show ?thesis using that [of ?pointer ?start] True by simp
  next
    case False
    with assms(5) have j: "Suc ?start < ls" "mem ! (ls - 1) = NL" by auto
    have "scan_back mem ?start ?pointer ?pointer [] = Inr (Suc (ls - 1), ls - 1, [] @ rev [ls - 1..<?pointer])"
      using assms(2-4) j by (intro scan_back_newline) auto
    then show ?thesis using that [of "Suc (ls - 1)" "ls - 1"] j by simp
  qed
  have pe: "?pointer \<le> e"
  proof (rule ccontr)
    assume "\<not> ?pointer \<le> e"
    then have "ls \<le> e \<and> e < ?pointer" using assms(6) by simp
    then show False using assms(4,9) by blast
  qed
  have fwd: "scan_forward mem ?lastp (ls + 1) (rev [current'..<?pointer])
               = Inr (?mem', rev [current'..<?pointer] @ [ls + 1..<Suc e])"
    using assms(6-10) by (intro scan_forward_newline) auto
  have zlen: "z < length ?mem'" using assms(8,12) by simp
  have znul: "?mem' ! z = NUL"
    using assms(8,13) by (cases "z = e") simp_all
  have before: "\<forall>i. ls \<le> i \<and> i < z \<longrightarrow> ?mem' ! i \<noteq> NUL"
    using assms(12,14) by simp
  have same: "map ((!) ?mem') [ls..<z] = map ((!) mem) [ls..<z]"
    using assms(12) by simp
  have str: "c_string ?mem' ls [] (rev [current'..<?pointer] @ [ls + 1..<Suc e])
               = Inr ([] @ map ((!) ?mem') [ls..<z],
                      (rev [current'..<?pointer] @ [ls + 1..<Suc e]) @ [ls..<Suc z])"
    using assms(11) zlen znul before by (intro c_string_terminated) auto
  have body: "map ((!) ?mem') [ls..<z] = bytes_between mem ls z"
    unfolding same using assms(8,12) by (intro map_nth_upt) simp
  have bounds: "set ((rev [current'..<?pointer] @ [ls + 1..<Suc e]) @ [ls..<Suc z])
                  \<subseteq> {?start..?lastp}"
    using cur pe assms(1,2,6,7,12) by auto
  show ?thesis
    using sb line2 fwd str body bounds
    by (simp add: get_parser_error_context_def write_error_marker_eq)
qed

lemma get_parser_error_context_no_newline:
  assumes "buffer_start parser \<le> ls" and "ls \<le> buffer_pointer parser"
    and "buffer_pointer parser \<le> Suc (buffer_last parser)"
    and "buffer_last parser < length mem"
    and "\<forall>i. ls \<le> i \<and> i < buffer_pointer parser \<longrightarrow> mem ! i \<noteq> NL"
    and "ls = buffer_start parser \<or> (Suc (buffer_start parser) < ls \<and> mem ! (ls - 1) = NL)"
    and "\<forall>i. Suc ls \<le> i \<and> i \<le> buffer_last parser \<longrightarrow> mem ! i \<noteq> NL"
    and "ls \<le> z" and "z \<le> buffer_last parser" and "mem ! z = NUL"
    and "\<forall>i. ls \<le> i \<and> i < z \<longrightarrow> mem ! i \<noteq> NUL"
  shows "\<exists>loads. get_parser_error_context parser mem
           = Inr (bytes_between mem ls z @ [NL]
                    @ replicate (nat (size_t_to_int (mark_column (problem_mark parser)))) SPC @ ''^'',
                  mem, loads)
         \<and> set loads \<subseteq> {buffer_start parser..buffer_last parser}"
proof -
  let ?start = "buffer_start parser" and ?pointer = "buffer_pointer parser"
  let ?lastp = "buffer_last parser"
  have plen: "?pointer \<le> length mem" using assms(3,4) by simp
  obtain line' current' where
    sb: "scan_back mem ?start ?pointer ?pointer [] = Inr (line', current', rev [current'..<?pointer])"
    and line2: "(if current' \<le> ?start then ?start else line') = ls"
    and cur: "?start \<le> current'"
  proof (cases "ls = ?start")
    case True
    have "scan_back mem ?start ?pointer ?pointer [] = Inr (?pointer, ?start, [] @ rev [?start..<?pointer])"
      using assms(1,2,5) plen True by (intro scan_back_no_newline) auto
    then show ?thesis using that [of ?pointer ?start] True by simp
  next
    case False
    with assms(6) have j: "Suc ?start < ls" "mem ! (ls - 1) = NL" by auto
    have "scan_back mem ?start ?pointer ?pointer [] = Inr (Suc (ls - 1), ls - 1, [] @ rev [ls - 1..<?pointer])"
      using assms(2,5) plen j by (intro scan_back_newline) auto
    then show ?thesis using that [of "Suc (ls - 1)" "ls - 1"] j by simp
  qed
  have fwd: "scan_forward mem ?lastp (ls + 1) (rev [current'..<?pointer])
               = Inr (mem, rev [current'..<?pointer] @ [ls + 1..<Suc ?lastp])"
    using assms(4,7) by (intro scan_forward_no_newline) auto
  have str: "c_string mem ls [] (rev [current'..<?pointer] @ [ls + 1..<Suc ?lastp])
               = Inr ([] @ map ((!) mem) [ls..<z],
                      (rev [current'..<?pointer] @ [ls + 1..<Suc ?lastp]) @ [ls..<Suc z])"
    using assms(4,8-11) by (intro c_string_terminated) auto
  have body: "map ((!) mem) [ls..<z] = bytes_between mem ls z"
    using assms(4,9) by (intro map_nth_upt) simp
  have bounds: "set ((rev [current'..<?pointer] @ [ls + 1..<Suc ?lastp]) @ [ls..<Suc z])
                  \<subseteq> {?start..?lastp}"
    using cur assms(1,2,3,9) by auto
  show ?thesis
    using sb line2 fwd str body bounds
    by (simp add: get_parser_error_context_def write_error_marker_eq)
qed

text \<open>The start of the line, as the spec words it, by offsets.\<close>

lemma spec_line_start_props:
  assumes "start \<le> pointer" and "pointer \<le> length mem"
  defines "ls \<equiv> spec_line_start mem start pointer"
  shows "start \<le> ls" and "ls \<le> pointer"
    and "\<forall>i. ls \<le> i \<and> i < pointer \<longrightarrow> mem ! i \<noteq> NL"
    and "ls = start \<or> (start < ls \<and> mem ! (ls - 1) = NL)"
proof -
  let ?pre = "bytes_between mem start pointer"
  let ?k = "length (takeWhile (\<lambda>c. c \<noteq> NL) (rev ?pre))"
  have len: "length ?pre = pointer - start"
    using assms(2) by (simp add: length_bytes_between)
  have k: "?k \<le> pointer - start"
    using length_takeWhile_le [of "\<lambda>c. c \<noteq> NL" "rev ?pre"] len by simp
  have ls: "ls = pointer - ?k"
    by (simp add: ls_def spec_line_start_def)
  show "start \<le> ls" and "ls \<le> pointer"
    using k assms(1) by (simp_all add: ls)
  have rv: "rev ?pre ! n = mem ! (pointer - 1 - n)" if "n < pointer - start" for n
  proof -
    have "rev ?pre ! n = ?pre ! (pointer - start - Suc n)"
      using that len by (simp add: rev_nth)
    also have "\<dots> = mem ! (start + (pointer - start - Suc n))"
      using that assms(2) by (intro nth_bytes_between) simp_all
    also have "start + (pointer - start - Suc n) = pointer - 1 - n"
      using that by simp
    finally show ?thesis .
  qed
  show "\<forall>i. ls \<le> i \<and> i < pointer \<longrightarrow> mem ! i \<noteq> NL"
  proof (intro allI impI)
    fix i assume i: "ls \<le> i \<and> i < pointer"
    then have n: "pointer - 1 - i < ?k" using ls k by linarith
    then have "rev ?pre ! (pointer - 1 - i) \<noteq> NL"
      by (rule takeWhile_holds)
    moreover have "rev ?pre ! (pointer - 1 - i) = mem ! (pointer - 1 - (pointer - 1 - i))"
      using n k by (intro rv) simp
    moreover have "pointer - 1 - (pointer - 1 - i) = i" using i by simp
    ultimately show "mem ! i \<noteq> NL" by simp
  qed
  show "ls = start \<or> (start < ls \<and> mem ! (ls - 1) = NL)"
  proof (cases "?k = pointer - start")
    case True
    then show ?thesis using ls assms(1) by simp
  next
    case False
    then have lt: "?k < pointer - start" using k by simp
    then have "?k < length (rev ?pre)" using len by simp
    then have "\<not> (rev ?pre ! ?k \<noteq> NL)"
      by (rule takeWhile_stops)
    then have "mem ! (pointer - 1 - ?k) = NL"
      using rv [OF lt] by simp
    moreover have "pointer - 1 - ?k = ls - 1" using ls by simp
    moreover have "start < ls" using lt ls by linarith
    ultimately show ?thesis by simp
  qed
qed

text \<open>
  For a pointer inside the buffer, the locator returns the line of the spec, cut at its
  first NUL byte if it has one, and loads no byte outside the buffer, provided that the
  nearest line feed before the pointer is not the first byte of the buffer, that the line
  is not empty, and that a line feed or a NUL ends the line inside the buffer.
\<close>

lemma buffer_locator_returns_line:
  assumes "buffer_start parser \<le> buffer_pointer parser"
    and "buffer_pointer parser \<le> buffer_last parser"
    and "buffer_last parser < length mem"
    and "spec_line_start mem (buffer_start parser) (buffer_pointer parser) \<noteq> Suc (buffer_start parser)"
    and "mem ! spec_line_start mem (buffer_start parser) (buffer_pointer parser) \<noteq> NL"
    and "NL \<in> set (bytes_between mem (spec_line_start mem (buffer_start parser) (buffer_pointer parser))
                      (Suc (buffer_last parser)))
         \<or> NUL \<in> set (bytes_between mem (spec_line_start mem (buffer_start parser) (buffer_pointer parser))
                      (Suc (buffer_last parser)))"
  shows "\<exists>mem' loads. get_parser_error_context parser mem
           = Inr (takeWhile (\<lambda>c. c \<noteq> NUL)
                    (spec_line mem (buffer_start parser) (buffer_pointer parser) (buffer_last parser))
                    @ [NL]
                    @ replicate (nat (size_t_to_int (mark_column (problem_mark parser)))) SPC @ ''^'',
                  mem', loads)
         \<and> set loads \<subseteq> {buffer_start parser..buffer_last parser}"
proof -
  let ?start = "buffer_start parser" and ?pointer = "buffer_pointer parser"
  let ?lastp = "buffer_last parser"
  define ls where "ls = spec_line_start mem ?start ?pointer"
  define seg where "seg = bytes_between mem ls (Suc ?lastp)"
  define line where "line = takeWhile (\<lambda>c. c \<noteq> NL) seg"
  define n where "n = length line"
  define m where "m = length (takeWhile (\<lambda>c. c \<noteq> NUL) line)"
  have plen: "?pointer \<le> length mem" using assms(2,3) by simp
  note sl = spec_line_start_props [OF assms(1) plen, folded ls_def]
  have bol: "ls = ?start \<or> (Suc ?start < ls \<and> mem ! (ls - 1) = NL)"
    using sl(4) assms(4) by (fold ls_def) auto
  have seglen: "length seg = Suc ?lastp - ls"
    using assms(3) by (simp add: seg_def length_bytes_between)
  have segnth: "seg ! i = mem ! (ls + i)" if "i < Suc ?lastp - ls" for i
    unfolding seg_def using that assms(3) by (intro nth_bytes_between) simp_all
  have lsl: "ls \<le> ?lastp" using sl(2) assms(2) by simp
  have n_le: "n \<le> length seg"
    by (simp add: n_def line_def length_takeWhile_le)
  have line_take: "line = take n seg"
    unfolding n_def line_def by (rule takeWhile_eq_take)
  have m_le: "m \<le> n"
    by (simp add: m_def n_def length_takeWhile_le)
  have cut: "takeWhile (\<lambda>c. c \<noteq> NUL) line = bytes_between mem ls (ls + m)"
  proof -
    have "takeWhile (\<lambda>c. c \<noteq> NUL) line = take m line"
      unfolding m_def by (rule takeWhile_eq_take)
    also have "\<dots> = take m seg"
      using m_le by (simp add: line_take min_def)
    also have "\<dots> = bytes_between mem ls (ls + m)"
      unfolding seg_def using m_le n_le seglen lsl by (intro take_bytes_between) linarith
    finally show ?thesis .
  qed
  have line_nth: "line ! i = mem ! (ls + i)" if "i < n" for i
    using that n_le seglen by (simp add: line_take segnth)
  have no_nl: "mem ! (ls + i) \<noteq> NL" if "i < n" for i
  proof -
    have "seg ! i \<noteq> NL"
      using that unfolding n_def line_def by (rule takeWhile_holds)
    then show ?thesis using that n_le seglen by (simp add: segnth)
  qed
  have no_nul: "mem ! (ls + i) \<noteq> NUL" if "i < m" for i
  proof -
    have "line ! i \<noteq> NUL"
      using that unfolding m_def by (rule takeWhile_holds)
    then show ?thesis using that m_le by (simp add: line_nth)
  qed
  have nul_at: "mem ! (ls + m) = NUL" if "m < n"
  proof -
    have "m < length line" using that by (simp add: n_def)
    then have "\<not> (line ! m \<noteq> NUL)"
      unfolding m_def by (rule takeWhile_stops)
    then show ?thesis using that by (simp add: line_nth)
  qed
  have n_pos: "0 < n"
  proof (rule ccontr)
    assume "\<not> 0 < n"
    then have z: "length (takeWhile (\<lambda>c. c \<noteq> NL) seg) = 0"
      by (simp add: n_def line_def)
    have "0 < length seg" using seglen lsl by simp
    with z have "\<not> (seg ! 0 \<noteq> NL)"
      using takeWhile_stops [of "\<lambda>c. c \<noteq> NL" seg] by simp
    moreover have "seg ! 0 = mem ! ls" using segnth [of 0] lsl by simp
    ultimately show False using assms(5) by (simp add: ls_def)
  qed
  have before_z: "\<forall>i. ls \<le> i \<and> i < ls + m \<longrightarrow> mem ! i \<noteq> NUL"
  proof (intro allI impI)
    fix i assume "ls \<le> i \<and> i < ls + m"
    then have "i - ls < m" and "ls + (i - ls) = i" by linarith+
    then show "mem ! i \<noteq> NUL" using no_nul [of "i - ls"] by simp
  qed
  have goal_text: "takeWhile (\<lambda>c. c \<noteq> NUL) (spec_line mem ?start ?pointer ?lastp)
                     = bytes_between mem ls (ls + m)"
    using cut by (simp add: spec_line_def line_def seg_def ls_def)
  show ?thesis
  proof (cases "n < length seg")
    case True
    define e where "e = ls + n"
    have e1: "Suc ls \<le> e" using n_pos by (simp add: e_def)
    have e2: "e \<le> ?lastp" using True seglen by (simp add: e_def)
    have e3: "e < length mem" using e2 assms(3) by simp
    have "\<not> (seg ! n \<noteq> NL)"
      using True unfolding n_def line_def by (rule takeWhile_stops)
    then have e4: "mem ! e = NL"
      using True seglen by (simp add: segnth e_def)
    have e5: "\<forall>i. Suc ls \<le> i \<and> i < e \<longrightarrow> mem ! i \<noteq> NL"
    proof (intro allI impI)
      fix i assume "Suc ls \<le> i \<and> i < e"
      then have "i - ls < n" and "ls + (i - ls) = i" unfolding e_def by linarith+
      then show "mem ! i \<noteq> NL" using no_nl [of "i - ls"] by simp
    qed
    have z1: "ls \<le> ls + m" and z2: "ls + m \<le> e"
      using m_le by (simp_all add: e_def)
    have z3: "ls + m = e \<or> mem ! (ls + m) = NUL"
      using nul_at m_le by (cases "m < n") (simp_all add: e_def)
    from get_parser_error_context_newline
      [OF sl(1) sl(2) plen sl(3) bol e1 e2 e3 e4 e5 z1 z2 z3 before_z]
    show ?thesis unfolding goal_text by blast
  next
    case False
    then have all: "n = length seg" using n_le by simp
    then have "\<forall>x \<in> set seg. x \<noteq> NL"
      using takeWhile_all [of "\<lambda>c. c \<noteq> NL" seg] by (simp add: n_def line_def)
    then have "NUL \<in> set seg"
      using assms(6) by (fold ls_def, fold seg_def) blast
    moreover have "line = seg" using all by (simp add: line_take)
    ultimately have "\<not> (\<forall>x \<in> set line. x \<noteq> NUL)" by simp
    then have "m \<noteq> length line"
      using takeWhile_all [of "\<lambda>c. c \<noteq> NUL" line] by (simp add: m_def)
    then have mn: "m < n" using m_le by (simp add: n_def)
    have nl: "\<forall>i. Suc ls \<le> i \<and> i \<le> ?lastp \<longrightarrow> mem ! i \<noteq> NL"
    proof (intro allI impI)
      fix i assume "Suc ls \<le> i \<and> i \<le> ?lastp"
      then have "i - ls < n" and "ls + (i - ls) = i" using all seglen by linarith+
      then show "mem ! i \<noteq> NL" using no_nl [of "i - ls"] by simp
    qed
    have z1: "ls \<le> ls + m" by simp
    have z2: "ls + m \<le> ?lastp" using mn all seglen by simp
    have pl: "?pointer \<le> Suc ?lastp" using assms(2) by simp
    from get_parser_error_context_no_newline
      [OF sl(1) sl(2) pl assms(3) sl(3) bol nl z1 z2 nul_at [OF mn] before_z]
    show ?thesis unfolding goal_text by blast
  qed
qed

lemmas locator_eval =
  get_parser_error_context_def scan_back.simps scan_forward.simps c_string.simps load_def
  write_error_marker_def marker_loop.simps size_t_to_int_def

lemma buffer_locator_returns_line_example:
  "\<exists>mem' loads. get_parser_error_context
     \<lparr>problem = ''p'', problem_mark = \<lparr>mark_line = 1, mark_column = 2\<rparr>,
      buffer_start = 0, buffer_pointer = 7, buffer_last = 10, token_available = False,
      state = YAML_PARSE_BLOCK_NODE_STATE\<rparr>
     (''a: 1'' @ [NL] @ ''b:'' @ [TAB] @ ''x'' @ [NL] @ ''c'')
     = Inr (''b:'' @ [TAB] @ ''x'' @ [NL] @ replicate 2 SPC @ ''^'', mem', loads)
     \<and> set loads \<subseteq> {0..10}"
  using buffer_locator_returns_line
    [of "\<lparr>problem = ''p'', problem_mark = \<lparr>mark_line = 1, mark_column = 2\<rparr>,
      buffer_start = 0, buffer_pointer = 7, buffer_last = 10, token_available = False,
      state = YAML_PARSE_BLOCK_NODE_STATE\<rparr>"
      "''a: 1'' @ [NL] @ ''b:'' @ [TAB] @ ''x'' @ [NL] @ ''c''"]
  by (simp add: spec_line_def spec_line_start_def bytes_between_def size_t_to_int_def)

subsection \<open>What the locator leaves in memory\<close>

lemma get_parser_error_context_parts:
  assumes "get_parser_error_context parser mem = Inr (ctx, mem', loads)"
  obtains line' current' loads1 loads2 str where
    "scan_back mem (buffer_start parser) (buffer_pointer parser) (buffer_pointer parser) []
       = Inr (line', current', loads1)"
    and "scan_forward mem (buffer_last parser)
           ((if current' \<le> buffer_start parser then buffer_start parser else line') + 1) loads1
       = Inr (mem', loads2)"
    and "c_string mem' (if current' \<le> buffer_start parser then buffer_start parser else line') [] loads2
       = Inr (str, loads)"
    and "ctx = write_error_marker (str @ [NL]) (size_t_to_int (mark_column (problem_mark parser)))"
  using assms
  by (auto simp add: get_parser_error_context_def Let_def split: sum.splits prod.splits)

text \<open>Where the line begins for the forward scan, and what lies between it and the pointer.\<close>

lemma line_start_after_scan_back:
  assumes "scan_back mem start pointer pointer [] = Inr (line', current', loads1)"
  defines "line2 \<equiv> (if current' \<le> start then start else line')"
  shows "start \<le> line2"
    and "line2 < pointer \<longleftrightarrow> start < pointer \<and> (pointer = Suc start \<or> mem ! (pointer - 1) \<noteq> NL)"
    and "\<forall>i. line2 < i \<and> i < pointer \<longrightarrow> mem ! i \<noteq> NL"
proof -
  from scan_back_result [OF assms(1)]
  consider
    (found) "start \<le> current'" "current' < pointer" "mem ! current' = NL" "line' = Suc current'"
      "\<forall>i. current' < i \<and> i < pointer \<longrightarrow> mem ! i \<noteq> NL"
  | (none) "line' = pointer" "current' \<le> start" "current' \<le> pointer"
      "\<forall>i. start \<le> i \<and> i < pointer \<longrightarrow> mem ! i \<noteq> NL"
    by blast
  then have "start \<le> line2
    \<and> (line2 < pointer \<longleftrightarrow> start < pointer \<and> (pointer = Suc start \<or> mem ! (pointer - 1) \<noteq> NL))
    \<and> (\<forall>i. line2 < i \<and> i < pointer \<longrightarrow> mem ! i \<noteq> NL)"
  proof cases
    case none
    have l: "line2 = start" using none(2) by (simp add: line2_def)
    have "mem ! (pointer - 1) \<noteq> NL" if "start < pointer"
      using that none(4) by simp
    then show ?thesis using l none(4) by auto
  next
    case found
    show ?thesis
    proof (cases "current' = start")
      case True
      have l: "line2 = start" using True by (simp add: line2_def)
      have "mem ! (pointer - 1) \<noteq> NL" if "pointer \<noteq> Suc start"
      proof -
        have "current' < pointer - 1 \<and> pointer - 1 < pointer"
          using that found(2) True by linarith
        then show ?thesis using found(5) by blast
      qed
      then show ?thesis using l found(2,5) True by auto
    next
      case False
      then have gt: "start < current'" using found(1) by simp
      then have l: "line2 = Suc current'" using found(4) by (simp add: line2_def)
      have a: "mem ! (pointer - 1) \<noteq> NL" if "Suc current' < pointer"
      proof -
        have "current' < pointer - 1 \<and> pointer - 1 < pointer"
          using that by linarith
        then show ?thesis using found(5) by blast
      qed
      have b: "mem ! (pointer - 1) = NL" if "\<not> Suc current' < pointer"
      proof -
        have "pointer - 1 = current'" using that found(2) by linarith
        then show ?thesis using found(3) by simp
      qed
      have c: "pointer \<noteq> Suc start" using gt found(2) by linarith
      have d: "start < pointer" using gt found(2) by linarith
      have e: "start \<le> Suc current'" using gt by simp
      have f: "\<forall>i. Suc current' < i \<and> i < pointer \<longrightarrow> mem ! i \<noteq> NL"
        using found(5) by simp
      show ?thesis
        unfolding l using a b c d e f by blast
    qed
  qed
  then show "start \<le> line2"
    and "line2 < pointer \<longleftrightarrow> start < pointer \<and> (pointer = Suc start \<or> mem ! (pointer - 1) \<noteq> NL)"
    and "\<forall>i. line2 < i \<and> i < pointer \<longrightarrow> mem ! i \<noteq> NL"
    by blast+
qed


lemma get_parser_error_context_writes:
  assumes "get_parser_error_context parser mem = Inr (ctx, mem', loads)"
  shows "mem' = mem
         \<or> (\<exists>e. buffer_start parser < e \<and> e \<le> buffer_last parser \<and> e < length mem
                \<and> mem ! e = NL \<and> mem' = mem[e := NUL])"
proof -
  let ?start = "buffer_start parser" and ?p = "buffer_pointer parser"
  from assms obtain line' current' loads1 loads2 where
    sb: "scan_back mem ?start ?p ?p [] = Inr (line', current', loads1)"
    and fw: "scan_forward mem (buffer_last parser)
               ((if current' \<le> ?start then ?start else line') + 1) loads1 = Inr (mem', loads2)"
    by (rule get_parser_error_context_parts)
  define line2 where "line2 = (if current' \<le> ?start then ?start else line')"
  have ge: "?start \<le> line2"
    unfolding line2_def by (rule line_start_after_scan_back(1) [OF sb])
  from scan_forward_result [OF fw, folded line2_def]
  show ?thesis
  proof
    assume "mem' = mem \<and> (\<forall>i. line2 + 1 \<le> i \<and> i \<le> buffer_last parser \<longrightarrow> mem ! i \<noteq> NL)"
    then show ?thesis by simp
  next
    assume "\<exists>e. line2 + 1 \<le> e \<and> e \<le> buffer_last parser \<and> e < length mem \<and> mem ! e = NL
              \<and> (\<forall>i. line2 + 1 \<le> i \<and> i < e \<longrightarrow> mem ! i \<noteq> NL) \<and> mem' = mem[e := NUL]"
    then obtain e where "line2 + 1 \<le> e" "e \<le> buffer_last parser" "e < length mem" "mem ! e = NL"
      "mem' = mem[e := NUL]"
      by blast
    moreover from this ge have "?start < e" by simp
    ultimately show ?thesis by blast
  qed
qed

lemma get_parser_error_context_length:
  "get_parser_error_context parser mem = Inr (ctx, mem', loads) \<Longrightarrow> length mem' = length mem"
  using get_parser_error_context_writes [of parser mem ctx mem' loads] by auto

text \<open>
  Which byte the forward scan overwrites, when the line begins where the spec has it.
\<close>

lemma line_start_is_spec_line_start:
  assumes "scan_back mem start pointer pointer [] = Inr (line', current', loads1)"
    and "start \<le> pointer" and "pointer \<le> length mem"
    and "spec_line_start mem start pointer \<noteq> Suc start"
  shows "(if current' \<le> start then start else line') = spec_line_start mem start pointer"
proof -
  define ls where "ls = spec_line_start mem start pointer"
  note sl = spec_line_start_props [OF assms(2,3), folded ls_def]
  show ?thesis
  proof (cases "ls = start")
    case True
    have "scan_back mem start pointer pointer [] = Inr (pointer, start, [] @ rev [start..<pointer])"
      using assms(2,3) sl(3) True by (intro scan_back_no_newline) auto
    with assms(1) have "current' = start" by simp
    then show ?thesis using True by (simp add: ls_def)
  next
    case False
    with sl(4) assms(4) have j: "Suc start < ls" "mem ! (ls - 1) = NL"
      by (fold ls_def) auto
    have "scan_back mem start pointer pointer [] = Inr (Suc (ls - 1), ls - 1, [] @ rev [ls - 1..<pointer])"
      using assms(3) sl(2,3) j by (intro scan_back_newline) auto
    with assms(1) have "current' = ls - 1" "line' = Suc (ls - 1)" by simp_all
    then show ?thesis using j by (simp add: ls_def)
  qed
qed

lemma get_parser_error_context_store:
  assumes "get_parser_error_context parser mem = Inr (ctx, mem', loads)"
    and "buffer_start parser \<le> buffer_pointer parser"
    and "buffer_pointer parser \<le> buffer_last parser"
    and "buffer_last parser < length mem"
    and "spec_line_start mem (buffer_start parser) (buffer_pointer parser) \<noteq> Suc (buffer_start parser)"
  shows "mem' =
     (if NL \<in> set (bytes_between mem
                      (Suc (spec_line_start mem (buffer_start parser) (buffer_pointer parser)))
                      (Suc (buffer_last parser)))
      then mem[Suc (spec_line_start mem (buffer_start parser) (buffer_pointer parser))
                 + length (takeWhile (\<lambda>c. c \<noteq> NL)
                     (bytes_between mem
                        (Suc (spec_line_start mem (buffer_start parser) (buffer_pointer parser)))
                        (Suc (buffer_last parser)))) := NUL]
      else mem)"
proof -
  let ?start = "buffer_start parser" and ?p = "buffer_pointer parser"
  let ?lastp = "buffer_last parser"
  define ls where "ls = spec_line_start mem ?start ?p"
  define seg where "seg = bytes_between mem (Suc ls) (Suc ?lastp)"
  define n where "n = length (takeWhile (\<lambda>c. c \<noteq> NL) seg)"
  have plen: "?p \<le> length mem" using assms(3,4) by simp
  from assms(1) obtain line' current' loads1 loads2 where
    sb: "scan_back mem ?start ?p ?p [] = Inr (line', current', loads1)"
    and fw: "scan_forward mem ?lastp ((if current' \<le> ?start then ?start else line') + 1) loads1
               = Inr (mem', loads2)"
    by (rule get_parser_error_context_parts)
  have l2: "(if current' \<le> ?start then ?start else line') = ls"
    unfolding ls_def by (rule line_start_is_spec_line_start [OF sb assms(2) plen assms(5)])
  have fw': "scan_forward mem ?lastp (Suc ls) loads1 = Inr (mem', loads2)"
    using fw l2 by simp
  note sl = spec_line_start_props [OF assms(2) plen, folded ls_def]
  have lsl: "ls \<le> ?lastp" using sl(2) assms(3) by simp
  have seglen: "length seg = ?lastp - ls"
    using assms(4) by (simp add: seg_def length_bytes_between)
  have segnth: "seg ! i = mem ! (Suc ls + i)" if "i < ?lastp - ls" for i
    unfolding seg_def using that assms(4) by (intro nth_bytes_between) simp_all
  have n_le: "n \<le> length seg"
    by (simp add: n_def length_takeWhile_le)
  have no_nl: "mem ! (Suc ls + i) \<noteq> NL" if "i < n" for i
  proof -
    have "seg ! i \<noteq> NL"
      using that unfolding n_def by (rule takeWhile_holds)
    then show ?thesis using that n_le seglen by (simp add: segnth)
  qed
  have result: "mem' = (if NL \<in> set seg then mem[Suc ls + n := NUL] else mem)"
  proof (cases "NL \<in> set seg")
    case True
    then have "\<not> (\<forall>x \<in> set seg. x \<noteq> NL)" by blast
    then have "n \<noteq> length seg"
      using takeWhile_all [of "\<lambda>c. c \<noteq> NL" seg] by (simp add: n_def)
    then have lt: "n < length seg" using n_le by simp
    have "\<not> (seg ! n \<noteq> NL)"
      using lt unfolding n_def by (rule takeWhile_stops)
    then have e4: "mem ! (Suc ls + n) = NL"
      using lt seglen by (simp add: segnth)
    have e2: "Suc ls + n \<le> ?lastp" using lt seglen by simp
    have e3: "Suc ls + n < length mem" using e2 assms(4) by simp
    have e5: "\<forall>i. Suc ls \<le> i \<and> i < Suc ls + n \<longrightarrow> mem ! i \<noteq> NL"
    proof (intro allI impI)
      fix i assume "Suc ls \<le> i \<and> i < Suc ls + n"
      then have "i - Suc ls < n" and "Suc ls + (i - Suc ls) = i" by linarith+
      then show "mem ! i \<noteq> NL" using no_nl [of "i - Suc ls"] by simp
    qed
    have "scan_forward mem ?lastp (Suc ls) loads1
            = Inr (mem[Suc ls + n := NUL], loads1 @ [Suc ls..<Suc (Suc ls + n)])"
      using e2 e3 e4 e5 by (intro scan_forward_newline) simp_all
    with fw' have "mem' = mem[Suc ls + n := NUL]" by simp
    then show ?thesis using True by simp
  next
    case False
    then have all: "n = length seg"
      using takeWhile_all [of "\<lambda>c. c \<noteq> NL" seg] by (auto simp add: n_def)
    have nl: "\<forall>i. Suc ls \<le> i \<and> i \<le> ?lastp \<longrightarrow> mem ! i \<noteq> NL"
    proof (intro allI impI)
      fix i assume "Suc ls \<le> i \<and> i \<le> ?lastp"
      then have "i - Suc ls < n" and "Suc ls + (i - Suc ls) = i" using all seglen by linarith+
      then show "mem ! i \<noteq> NL" using no_nl [of "i - Suc ls"] by simp
    qed
    have "scan_forward mem ?lastp (Suc ls) loads1 = Inr (mem, loads1 @ [Suc ls..<Suc ?lastp])"
      using assms(4) nl by (intro scan_forward_no_newline) simp_all
    with fw' have "mem' = mem" by simp
    then show ?thesis using False by simp
  qed
  show ?thesis
    using result by (simp only: seg_def n_def ls_def)
qed



subsection \<open>The classifier at concrete buffers\<close>



subsection \<open>The entry points return\<close>












subsection \<open>The buffer after the locator\<close>

text \<open>
  C4, as stated, fails: the locator ends the line in place. In the buffer
  \<^verbatim>\<open>"a:\nb:\n"\<close> the line feed at offset 2 is a NUL after the call.
\<close>

theorem buffer_locator_overwrites_newline:
  "get_parser_error_context
     \<lparr>problem = ''p'', problem_mark = \<lparr>mark_line = 0, mark_column = 1\<rparr>,
      buffer_start = 0, buffer_pointer = 1, buffer_last = 5, token_available = True,
      state = YAML_PARSE_BLOCK_NODE_STATE\<rparr>
     (''a:'' @ [NL] @ ''b:'' @ [NL])
     = Inr (''a:'' @ [NL] @ '' ^'', ''a:'' @ [NUL] @ ''b:'' @ [NL], [0, 1, 2, 0, 1, 2])
   \<and> (''a:'' @ [NUL] @ ''b:'' @ [NL]) ! 2 \<noteq> (''a:'' @ [NL] @ ''b:'' @ [NL]) ! 2"
  by (simp add: locator_eval)

text \<open>
  C4, amended: on every invocation that returns, the buffer line locator stores at most
  one byte: the memory keeps its length, and either it is unchanged or one line feed, at
  an offset above \<^verbatim>\<open>buffer_start\<close> and at most \<^verbatim>\<open>buffer_last\<close>, has become a
  NUL and every other byte is unchanged. When such an invocation has its pointer from
  \<^verbatim>\<open>buffer_start\<close> to \<^verbatim>\<open>buffer_last\<close>, \<^verbatim>\<open>buffer_last\<close> inside the memory
  object, and a line that does not begin right after a line feed at
  \<^verbatim>\<open>buffer_start\<close>, the byte stored is the first line feed after the first byte of
  the line that holds the pointer, up to \<^verbatim>\<open>buffer_last\<close>; when there is none,
  nothing is stored. The line is returned in a fresh string.
\<close>

theorem buffer_locator_writes:
  assumes "get_parser_error_context parser mem = Inr (ctx, mem', loads)"
  shows "length mem' = length mem
         \<and> (mem' = mem
            \<or> (\<exists>e. buffer_start parser < e \<and> e \<le> buffer_last parser \<and> e < length mem
                   \<and> mem ! e = NL \<and> mem' = mem[e := NUL]))
         \<and> (buffer_start parser \<le> buffer_pointer parser
              \<and> buffer_pointer parser \<le> buffer_last parser
              \<and> buffer_last parser < length mem
              \<and> spec_line_start mem (buffer_start parser) (buffer_pointer parser)
                   \<noteq> Suc (buffer_start parser)
            \<longrightarrow> mem' =
               (if NL \<in> set (bytes_between mem
                      (Suc (spec_line_start mem (buffer_start parser) (buffer_pointer parser)))
                      (Suc (buffer_last parser)))
                then mem[Suc (spec_line_start mem (buffer_start parser) (buffer_pointer parser))
                 + length (takeWhile (\<lambda>c. c \<noteq> NL)
                     (bytes_between mem
                        (Suc (spec_line_start mem (buffer_start parser) (buffer_pointer parser)))
                        (Suc (buffer_last parser)))) := NUL]
                else mem))"
  using get_parser_error_context_writes [OF assms] get_parser_error_context_length [OF assms]
    get_parser_error_context_store [OF assms]
  by blast

theorem buffer_locator_writes_witness:
  "get_parser_error_context
     \<lparr>problem = ''p'', problem_mark = \<lparr>mark_line = 1, mark_column = 1\<rparr>,
      buffer_start = 0, buffer_pointer = 4, buffer_last = 8, token_available = True,
      state = YAML_PARSE_BLOCK_NODE_STATE\<rparr>
     (''a:'' @ [NL] @ ''b:'' @ [NL] @ ''c:'' @ [NL])
     = Inr (''b:'' @ [NL] @ '' ^'', ''a:'' @ [NL] @ ''b:'' @ [NUL] @ ''c:'' @ [NL],
            [3, 2, 4, 5, 3, 4, 5])
   \<and> ''a:'' @ [NL] @ ''b:'' @ [NUL] @ ''c:'' @ [NL]
       = (''a:'' @ [NL] @ ''b:'' @ [NL] @ ''c:'' @ [NL])[5 := NUL]"
proof -
  let ?parser = "\<lparr>problem = ''p'', problem_mark = \<lparr>mark_line = 1, mark_column = 1\<rparr>,
      buffer_start = 0, buffer_pointer = 4, buffer_last = 8, token_available = True,
      state = YAML_PARSE_BLOCK_NODE_STATE\<rparr>"
  let ?mem = "''a:'' @ [NL] @ ''b:'' @ [NL] @ ''c:'' @ [NL]"
  have run: "get_parser_error_context ?parser ?mem
     = Inr (''b:'' @ [NL] @ '' ^'', ''a:'' @ [NL] @ ''b:'' @ [NUL] @ ''c:'' @ [NL],
            [3, 2, 4, 5, 3, 4, 5])"
    by (simp add: locator_eval)
  from buffer_locator_writes [OF run] run show ?thesis
    by (simp add: spec_line_start_def bytes_between_def)
qed

subsection \<open>Where the locator misses the line\<close>

text \<open>
  C2 fails on the code. When the line feed before the pointer is the first byte of the
  buffer, the test \<^verbatim>\<open>current <= parser->buffer.start\<close> after the backward loop takes
  the line to begin at \<^verbatim>\<open>buffer_start\<close>: for \<^verbatim>\<open>"\n\tfoo: bar\n"\<close> with the
  pointer on the tab the text returned is \<^verbatim>\<open>"\n\tfoo: bar"\<close>, the line and the line
  feed before it. When the line is empty, the forward loop, which starts at
  \<^verbatim>\<open>line + 1\<close>, skips the line feed that ends it: for \<^verbatim>\<open>"a:\n\nb: 1\n"\<close> with
  the pointer on the empty line the text returned is \<^verbatim>\<open>"\nb: 1"\<close>, the next line.
\<close>

theorem buffer_locator_adjacent_lines:
  "get_parser_error_context
     \<lparr>problem = ''p'', problem_mark = \<lparr>mark_line = 1, mark_column = 0\<rparr>,
      buffer_start = 0, buffer_pointer = 1, buffer_last = 10, token_available = False,
      state = YAML_PARSE_BLOCK_NODE_STATE\<rparr>
     ([NL, TAB] @ ''foo: bar'' @ [NL])
     = Inr ([NL, TAB] @ ''foo: bar'' @ [NL] @ ''^'', [NL, TAB] @ ''foo: bar'' @ [NUL],
            [0, 1, 2, 3, 4, 5, 6, 7, 8, 9, 10, 0, 1, 2, 3, 4, 5, 6, 7, 8, 9, 10])
   \<and> spec_line ([NL, TAB] @ ''foo: bar'' @ [NL]) 0 1 10 = [TAB] @ ''foo: bar''
   \<and> get_parser_error_context
     \<lparr>problem = ''p'', problem_mark = \<lparr>mark_line = 2, mark_column = 0\<rparr>,
      buffer_start = 0, buffer_pointer = 3, buffer_last = 8, token_available = False,
      state = YAML_PARSE_BLOCK_NODE_STATE\<rparr>
     (''a:'' @ [NL, NL] @ ''b: 1'' @ [NL])
     = Inr ([NL] @ ''b: 1'' @ [NL] @ ''^'', ''a:'' @ [NL, NL] @ ''b: 1'' @ [NUL],
            [2, 4, 5, 6, 7, 8, 3, 4, 5, 6, 7, 8])
   \<and> spec_line (''a:'' @ [NL, NL] @ ''b: 1'' @ [NL]) 0 3 8 = []"
  by (simp add: locator_eval spec_line_def spec_line_start_def bytes_between_def)

text \<open>
  C7 fails on the code. When no line feed follows in the buffer, nothing ends the line,
  and \<^verbatim>\<open>%s\<close> loads on beyond \<^verbatim>\<open>buffer_last\<close> until it meets a NUL. For the
  buffer \<^verbatim>\<open>"  \tkey: value"\<close> (offsets 0 to 12) the call faults at offset 13 when the
  memory object ends there, and loads the offsets 13, 14 and 15 and returns their bytes
  as part of the line when the object goes on with \<^verbatim>\<open>"xy"\<close> and a NUL. For a
  buffer of no bytes (\<^verbatim>\<open>buffer_last\<close> just below \<^verbatim>\<open>buffer_start\<close>) it loads
  and returns the bytes that follow in memory.
\<close>

theorem buffer_locator_reads_past_last:
  "get_parser_error_context
     \<lparr>problem = ''p'', problem_mark = \<lparr>mark_line = 0, mark_column = 2\<rparr>,
      buffer_start = 0, buffer_pointer = 2, buffer_last = 12, token_available = False,
      state = YAML_PARSE_BLOCK_NODE_STATE\<rparr>
     (''  '' @ [TAB] @ ''key: value'')
     = Inl (Invalid_Access 13)
   \<and> get_parser_error_context
     \<lparr>problem = ''p'', problem_mark = \<lparr>mark_line = 0, mark_column = 2\<rparr>,
      buffer_start = 0, buffer_pointer = 2, buffer_last = 12, token_available = False,
      state = YAML_PARSE_BLOCK_NODE_STATE\<rparr>
     (''  '' @ [TAB] @ ''key: value'' @ ''xy'' @ [NUL])
     = Inr (''  '' @ [TAB] @ ''key: valuexy'' @ [NL] @ ''  ^'',
            ''  '' @ [TAB] @ ''key: value'' @ ''xy'' @ [NUL],
            [1, 0, 1, 2, 3, 4, 5, 6, 7, 8, 9, 10, 11, 12,
             0, 1, 2, 3, 4, 5, 6, 7, 8, 9, 10, 11, 12, 13, 14, 15])
   \<and> get_parser_error_context
     \<lparr>problem = ''p'', problem_mark = \<lparr>mark_line = 0, mark_column = 0\<rparr>,
      buffer_start = 1, buffer_pointer = 1, buffer_last = 0, token_available = False,
      state = YAML_PARSE_BLOCK_NODE_STATE\<rparr>
     (''Xab'' @ [NUL])
     = Inr (''ab'' @ [NL] @ ''^'', ''Xab'' @ [NUL], [1, 2, 3])"
  by (simp add: locator_eval)

end
